theory Spec2Isabelle
  imports Complex_Main
begin

section \<open>Conventions of the embedding\<close>

text \<open>
  The development embeds \<^verbatim>\<open>xitorch/_impls/interpolate/interp_1d.py\<close>.
  Tensor entries are exact real numbers, so every statement below is one of exact
  arithmetic. A one-dimensional tensor is a list. An ordinate tensor of shape
  \<open>(*B, nr)\<close> is the list of its rows along the last axis (the batch prefix in
  row-major order, the empty prefix being one row): every operation of the source on
  ordinates acts along the last axis and broadcasts over the prefix. Index tensors
  hold integers. Exceptions of the source are values of the type \<open>error\<close>.
\<close>

datatype error =
    MissingY            \<comment> \<open>\<^verbatim>\<open>RuntimeError("y must be given")\<close>\<close>
  | NotOneDim           \<comment> \<open>\<^verbatim>\<open>RuntimeError("The input x must be a 1D tensor")\<close>\<close>
  | UnimplementedBc string  \<comment> \<open>\<^verbatim>\<open>RuntimeError("Unimplemented %s bc_type. ...")\<close>\<close>
  | NotPeriodic         \<comment> \<open>\<^verbatim>\<open>RuntimeError("The value of y must be periodic ...")\<close>\<close>
  | KeyError string     \<comment> \<open>a dictionary lookup with a missing key\<close>
  | IndexError          \<comment> \<open>an index outside its axis\<close>
  | SizeMismatch        \<comment> \<open>operands whose sizes cannot be broadcast or multiplied\<close>
  | EmptyReduction      \<comment> \<open>\<^verbatim>\<open>torch.min\<close> or \<^verbatim>\<open>torch.max\<close> along an axis of size zero\<close>
  | Singular            \<comment> \<open>\<^verbatim>\<open>torch.solve\<close> on a singular matrix\<close>
  | AttributeError      \<comment> \<open>an attribute that was never assigned\<close>
  | ExtrapError string  \<comment> \<open>an extrapolation mode the helper does not know\<close>

section \<open>Segment location\<close>

text \<open>
  \<^verbatim>\<open>torch.searchsorted(x, xq, right=False)\<close>: for each query the library runs the
  bisection loop
  \<^verbatim>\<open>while (start < end) { mid = start + ((end - start) >> 1);
           if (!(x[mid] >= val)) start = mid + 1; else end = mid; } return start;\<close>
\<close>

function lower_bound :: "real list \<Rightarrow> real \<Rightarrow> nat \<Rightarrow> nat \<Rightarrow> nat" where
  "lower_bound xs v lo hi =
     (if lo < hi
      then (let mid = lo + (hi - lo) div 2
            in if \<not> (xs ! mid \<ge> v) then lower_bound xs v (mid + 1) hi
               else lower_bound xs v lo mid)
      else lo)"
  by pat_completeness auto
termination
  by (relation "measure (\<lambda>(xs, v, lo, hi). hi - lo)") auto

declare lower_bound.simps [simp del]

definition searchsorted :: "real list \<Rightarrow> real list \<Rightarrow> int list" where
  "searchsorted x xq = map (\<lambda>v. int (lower_bound x v 0 (length x))) xq"

text \<open>\<^verbatim>\<open>torch.clamp(v, lo, hi)\<close> is \<open>min (max v lo) hi\<close>.\<close>

definition clamp :: "int \<Rightarrow> int \<Rightarrow> int \<Rightarrow> int" where
  "clamp v lo hi = min (max v lo) hi"

text \<open>
  Lines 144 to 147 of the source:
  \<^verbatim>\<open>nr = x.shape[-1]; idxr = torch.searchsorted(x, xq, right=False)
  idxr = torch.clamp(idxr, 1, nr-1); idxl = idxr - 1\<close>
\<close>

definition get_idxr :: "real list \<Rightarrow> real list \<Rightarrow> int list" where
  "get_idxr x xq = map (\<lambda>i. clamp i 1 (int (length x) - 1)) (searchsorted x xq)"

definition get_idxl :: "real list \<Rightarrow> real list \<Rightarrow> int list" where
  "get_idxl x xq = map (\<lambda>i. i - 1) (get_idxr x xq)"

text \<open>The abscissas are strictly increasing.\<close>

definition strictly_increasing :: "real list \<Rightarrow> bool" where
  "strictly_increasing x = sorted_wrt (<) x"

section \<open>The spline matrix\<close>

subsection \<open>Tensor primitives\<close>

text \<open>
  A matrix is the list of its rows. \<^verbatim>\<open>torch.zeros((nr, nr))\<close>:
\<close>

definition zeros :: "nat \<Rightarrow> nat \<Rightarrow> real list list" where
  "zeros n m = replicate n (replicate m 0)"

text \<open>
  An in-place assignment \<^verbatim>\<open>view[..., :] = vals\<close> broadcasts \<open>vals\<close> to the size of
  the view: the sizes are equal, or \<open>vals\<close> has one entry, or the assignment raises.
\<close>

definition broadcast_to :: "nat \<Rightarrow> 'a list \<Rightarrow> error + 'a list" where
  "broadcast_to n vs =
     (if length vs = n then Inr vs
      else if length vs = 1 then Inr (replicate n (hd vs))
      else Inl SizeMismatch)"

text \<open>
  \<^verbatim>\<open>M.diagonal(offset=k, dim1=-2, dim2=-1)[..., :] = vals\<close>. The view starts at row
  \<open>r0\<close> and column \<open>c0\<close> (\<open>(0, k)\<close> for an offset \<open>k \<ge> 0\<close>, \<open>(k, 0)\<close> for the offset
  \<open>-k\<close>) and has \<open>n - (r0 + c0)\<close> entries in a square matrix of size \<open>n\<close>.
\<close>

definition set_diagonal :: "nat \<Rightarrow> nat \<Rightarrow> real list \<Rightarrow> real list list \<Rightarrow> real list list" where
  "set_diagonal r0 c0 vs M =
     map (\<lambda>i. map (\<lambda>j. if r0 \<le> i \<and> c0 \<le> j \<and> i - r0 = j - c0 then vs ! (i - r0) else M ! i ! j)
                [0..<length (M ! i)])
         [0..<length M]"

definition diagonal_assign :: "nat \<Rightarrow> nat \<Rightarrow> real list \<Rightarrow> real list list \<Rightarrow> error + real list list" where
  "diagonal_assign r0 c0 vals M =
     (case broadcast_to (length M - (r0 + c0)) vals of
        Inl e \<Rightarrow> Inl e
      | Inr vs \<Rightarrow> Inr (set_diagonal r0 c0 vs M))"

text \<open>
  A Python index \<open>i\<close> into an axis of size \<open>n\<close>: negative indices count from the end,
  and an index outside \<open>[-n, n)\<close> raises.
\<close>

definition py_index :: "nat \<Rightarrow> int \<Rightarrow> error + nat" where
  "py_index n i =
     (if 0 \<le> i \<and> i < int n then Inr (nat i)
      else if - int n \<le> i \<and> i < 0 then Inr (nat (i + int n))
      else Inl IndexError)"

text \<open>\<^verbatim>\<open>M[..., i, :] = c\<close> and \<^verbatim>\<open>M[..., i, j] = c\<close> for a number \<open>c\<close>.\<close>

definition row_fill :: "int \<Rightarrow> real \<Rightarrow> real list list \<Rightarrow> error + real list list" where
  "row_fill i c M =
     (case py_index (length M) i of
        Inl e \<Rightarrow> Inl e
      | Inr r \<Rightarrow> Inr (M[r := replicate (length (M ! r)) c]))"

definition entry_set :: "int \<Rightarrow> int \<Rightarrow> real \<Rightarrow> real list list \<Rightarrow> error + real list list" where
  "entry_set i j c M =
     (case py_index (length M) i of
        Inl e \<Rightarrow> Inl e
      | Inr r \<Rightarrow> (case py_index (length (M ! r)) j of
                    Inl e \<Rightarrow> Inl e
                  | Inr s \<Rightarrow> Inr (M[r := (M ! r)[s := c]])))"

subsection \<open>The linear solver\<close>

text \<open>
  \<^verbatim>\<open>torch.solve(B, A)\<close> is the library's routine for \<open>A X = B\<close> (an LU factorisation
  and two substitutions); it raises when the matrix is singular. In exact arithmetic its
  result is the one Gaussian elimination gives, whatever the pivoting order: the routine
  is modelled by elimination with the first usable pivot, one column of \<open>B\<close> at a time.
  An equation is the pair of its coefficients and its right-hand side.
\<close>

fun dot :: "real list \<Rightarrow> real list \<Rightarrow> real" where
  "dot (a # as) (b # bs) = a * b + dot as bs"
| "dot _ _ = 0"

fun split_pivot :: "(real list \<times> real) list \<Rightarrow> ((real list \<times> real) \<times> (real list \<times> real) list) option" where
  "split_pivot [] = None"
| "split_pivot (e # es) =
     (if hd (fst e) \<noteq> 0 then Some (e, es)
      else (case split_pivot es of
              None \<Rightarrow> None
            | Some (p, rest) \<Rightarrow> Some (p, e # rest)))"

definition eliminate :: "(real list \<times> real) \<Rightarrow> (real list \<times> real) \<Rightarrow> (real list \<times> real)" where
  "eliminate p e =
     (let f = hd (fst e) / hd (fst p)
      in (map2 (\<lambda>a b. a - f * b) (tl (fst e)) (tl (fst p)), snd e - f * snd p))"

text \<open>\<open>gauss n eqs\<close> solves \<open>n\<close> equations in \<open>n\<close> unknowns.\<close>

fun gauss :: "nat \<Rightarrow> (real list \<times> real) list \<Rightarrow> real list option" where
  "gauss 0 eqs = Some []"
| "gauss (Suc n) eqs =
     (case split_pivot eqs of
        None \<Rightarrow> None
      | Some (p, rest) \<Rightarrow>
          (case gauss n (map (eliminate p) rest) of
             None \<Rightarrow> None
           | Some xs \<Rightarrow> Some ((snd p - dot (tl (fst p)) xs) / hd (fst p) # xs)))"

definition ncols :: "'a list list \<Rightarrow> nat" where
  "ncols M = (case M of [] \<Rightarrow> 0 | r # _ \<Rightarrow> length r)"

definition column :: "nat \<Rightarrow> real list list \<Rightarrow> real list" where
  "column j M = map (\<lambda>r. r ! j) M"

definition mat_mul :: "real list list \<Rightarrow> real list list \<Rightarrow> real list list" where
  "mat_mul A X = map (\<lambda>a. map (\<lambda>j. dot a (column j X)) [0..<ncols X]) A"

definition solve :: "real list list \<Rightarrow> real list list \<Rightarrow> error + real list list" where
  "solve B A =
     (let n = length A; m = ncols B
      in if \<not> (list_all (\<lambda>r. length r = n) A \<and> length B = n \<and> list_all (\<lambda>r. length r = m) B)
         then Inl SizeMismatch
         else (let sols = map (\<lambda>j. gauss n (zip A (column j B))) [0..<m]
               in if list_all (\<lambda>s. s \<noteq> None) sols
                  then Inr (map (\<lambda>i. map (\<lambda>s. the s ! i) sols) [0..<n])
                  else Inl Singular))"

subsection \<open>\<^verbatim>\<open>_get_spline_mat_inv\<close>\<close>

text \<open>
  The slices of the source: \<^verbatim>\<open>v[1:]\<close> is \<open>tl v\<close>, \<^verbatim>\<open>v[:-1]\<close> is \<open>butlast v\<close>,
  \<^verbatim>\<open>v[:1]\<close> is \<open>take 1 v\<close>, \<^verbatim>\<open>v[1:-1]\<close> is \<open>butlast (tl v)\<close>. Division is the
  field's: where two neighbouring abscissas are equal the source divides by zero, and the
  statements below exclude it by asking for strictly increasing abscissas.
\<close>

definition get_dxinv0 :: "real list \<Rightarrow> real list" where
  "get_dxinv0 x = map (\<lambda>d. 1 / d) (map2 (-) (tl x) (butlast x))"

definition get_dxinv :: "real list \<Rightarrow> real list" where
  "get_dxinv x =
     (let dxinv0 = get_dxinv0 x;
          zero_pad = map (\<lambda>_. 0) (take 1 dxinv0)
      in zero_pad @ dxinv0 @ zero_pad)"

definition get_spline_mat :: "real list \<Rightarrow> error + real list list" where
  "get_spline_mat x =
     (let nr = length x;
          dxinv0 = get_dxinv0 x;
          dxinv = get_dxinv x;
          diag = map (\<lambda>v. v * 2) (map2 (+) (butlast dxinv) (tl dxinv));
          offdiag = dxinv0
      in case diagonal_assign 0 0 diag (zeros nr nr) of
           Inl e \<Rightarrow> Inl e
         | Inr M1 \<Rightarrow> (case diagonal_assign 0 1 offdiag M1 of
                        Inl e \<Rightarrow> Inl e
                      | Inr M2 \<Rightarrow> diagonal_assign 1 0 offdiag M2))"

definition get_matr :: "real list \<Rightarrow> error + real list list" where
  "get_matr x =
     (let nr = length x;
          dxinv = get_dxinv x;
          dxinv2 = map (\<lambda>v. v * 3) (map2 (*) dxinv dxinv);
          diagr = map2 (-) (butlast dxinv2) (tl dxinv2);
          udiagr = butlast (tl dxinv2);
          ldiagr = map uminus udiagr
      in case diagonal_assign 0 0 diagr (zeros nr nr) of
           Inl e \<Rightarrow> Inl e
         | Inr M1 \<Rightarrow> (case diagonal_assign 0 1 udiagr M1 of
                        Inl e \<Rightarrow> Inl e
                      | Inr M2 \<Rightarrow> diagonal_assign 1 0 ldiagr M2))"

text \<open>The branch \<^verbatim>\<open>if bc_type == "clamped"\<close>, on the left-hand and on the right-hand matrix.\<close>

definition clamp_spline_mat :: "real list list \<Rightarrow> error + real list list" where
  "clamp_spline_mat M =
     (case row_fill 0 0 M of
        Inl e \<Rightarrow> Inl e
      | Inr M1 \<Rightarrow> (case entry_set 0 0 1 M1 of
                     Inl e \<Rightarrow> Inl e
                   | Inr M2 \<Rightarrow> (case row_fill (- 1) 0 M2 of
                                  Inl e \<Rightarrow> Inl e
                                | Inr M3 \<Rightarrow> entry_set (- 1) (- 1) 1 M3)))"

definition clamp_matr :: "real list list \<Rightarrow> error + real list list" where
  "clamp_matr M =
     (case row_fill 0 0 M of
        Inl e \<Rightarrow> Inl e
      | Inr M1 \<Rightarrow> row_fill (- 1) 0 M1)"

text \<open>The two matrices handed to the solver.\<close>

definition spline_system :: "real list \<Rightarrow> string \<Rightarrow> error + (real list list \<times> real list list)" where
  "spline_system x bc_type =
     (case get_spline_mat x of
        Inl e \<Rightarrow> Inl e
      | Inr spline_mat \<Rightarrow>
          (case get_matr x of
             Inl e \<Rightarrow> Inl e
           | Inr matr \<Rightarrow>
               if bc_type = ''clamped''
               then (case clamp_spline_mat spline_mat of
                       Inl e \<Rightarrow> Inl e
                     | Inr spline_mat' \<Rightarrow>
                         (case clamp_matr matr of
                            Inl e \<Rightarrow> Inl e
                          | Inr matr' \<Rightarrow> Inr (spline_mat', matr')))
               else Inr (spline_mat, matr)))"

definition get_spline_mat_inv :: "real list \<Rightarrow> string \<Rightarrow> error + real list list" where
  "get_spline_mat_inv x bc_type =
     (case spline_system x bc_type of
        Inl e \<Rightarrow> Inl e
      | Inr (spline_mat, matr) \<Rightarrow> solve matr spline_mat)"

text \<open>
  The slope coefficients:
  \<^verbatim>\<open>torch.matmul(self.spline_mat_inv, y.unsqueeze(-1)).squeeze(-1)\<close>, on every row of the
  ordinates the matrix-vector product, which raises unless the row is as long as the
  matrix is wide.
\<close>

definition matvec :: "real list list \<Rightarrow> real list \<Rightarrow> real list" where
  "matvec Z v = map (\<lambda>z. dot z v) Z"

definition get_ks :: "real list list \<Rightarrow> real list list \<Rightarrow> error + real list list" where
  "get_ks Z y =
     (if list_all (\<lambda>r. list_all (\<lambda>z. length z = length r) Z) y
      then Inr (map (matvec Z) y)
      else Inl SizeMismatch)"

section \<open>The piecewise evaluator\<close>

text \<open>
  The interpolant object. \<open>base_y_is_given\<close>, \<open>self_extrap\<close>, \<open>self_xmin\<close> and
  \<open>self_xmax\<close> are the attributes \<^verbatim>\<open>_y_is_given\<close>, \<^verbatim>\<open>_extrap\<close>, \<^verbatim>\<open>_xmin\<close> and
  \<^verbatim>\<open>_xmax\<close> of \<^verbatim>\<open>BaseInterp1D\<close>; the others are the attributes of
  \<^verbatim>\<open>CubicSpline1D\<close> of the same name. \<^verbatim>\<open>y\<close> and \<^verbatim>\<open>ks\<close> are assigned only when
  ordinates are given at construction.
\<close>

datatype extrap =
    ExtrapStr string                        \<comment> \<open>\<^verbatim>\<open>"nan"\<close>, \<^verbatim>\<open>"mirror"\<close>, \<^verbatim>\<open>"periodic"\<close>, \<^verbatim>\<open>"bound"\<close>, ...\<close>
  | ExtrapConst real                        \<comment> \<open>an int, a float or a one-element tensor\<close>
  | ExtrapFun "real list \<Rightarrow> real list"      \<comment> \<open>a callable\<close>

record CubicSpline1D =
  base_y_is_given :: bool
  self_extrap :: extrap
  self_xmin :: real
  self_xmax :: real
  is_periodic_required :: bool
  self_x :: "real list"
  self_bc_type :: string
  self_spline_mat_inv :: "real list list"
  self_y_is_given :: bool
  self_y :: "real list list option"
  self_ks :: "real list list option"

text \<open>
  \<^verbatim>\<open>torch.gather(v, -1, idx)\<close> raises on an index outside \<open>[0, len(v))\<close>.
  \<open>select v idx\<close> is \<^verbatim>\<open>v[..., idx]\<close>; in both branches a \<open>gather\<close> on an axis that is
  not longer has checked the same indices before.
\<close>

definition gather :: "real list \<Rightarrow> int list \<Rightarrow> error + real list" where
  "gather v idx =
     (if list_all (\<lambda>i. 0 \<le> i \<and> i < int (length v)) idx
      then Inr (map (\<lambda>i. v ! nat i) idx)
      else Inl IndexError)"

definition select :: "real list \<Rightarrow> int list \<Rightarrow> real list" where
  "select v idx = map (\<lambda>i. v ! nat i) idx"

text \<open>
  The arithmetic of both branches broadcasts \<open>ks\<close> and \<open>y\<close>, of shape \<open>(*BY, nr)\<close>,
  against tensors of shape \<open>(nr)\<close> or \<open>(nr-1)\<close> made from \<open>x\<close>: it raises unless the
  sizes agree.
\<close>

definition shapes_agree :: "nat \<Rightarrow> real list list \<Rightarrow> real list list \<Rightarrow> bool" where
  "shapes_agree nr ks y =
     (length ks = length y \<and> list_all (\<lambda>r. length r = nr) ks \<and> list_all (\<lambda>r. length r = nr) y)"

text \<open>
  Lines 151 to 162: the coefficients \<open>(p0, p1, p2, p3)\<close> of the polynomial in \<open>t\<close>, one
  per segment, for one row of \<open>ks\<close> and \<open>y\<close>.
\<close>

definition poly_coeffs ::
  "real list \<Rightarrow> real list \<Rightarrow> real list \<Rightarrow> real list \<times> real list \<times> real list \<times> real list" where
  "poly_coeffs x k y =
     (let yl = butlast y;
          xl = butlast x;
          dy = map2 (-) (tl y) yl;
          dx = map2 (-) (tl x) xl;
          a = map2 (-) (map2 (*) (butlast k) dx) dy;
          b = map2 (+) (map2 (*) (map uminus (tl k)) dx) dy;
          p0 = yl;
          p1 = map2 (+) dy a;
          p2 = map2 (-) b (map (\<lambda>v. 2 * v) a);
          p3 = map2 (-) a b
      in (p0, p1, p2, p3))"

text \<open>Lines 167 to 173: the nested multiplication, for one row.\<close>

definition horner ::
  "real list \<times> real list \<times> real list \<times> real list \<Rightarrow> int list \<Rightarrow> real list \<Rightarrow> real list" where
  "horner p idxl t =
     (case p of (p0, p1, p2, p3) \<Rightarrow>
        (let yq1 = map2 (*) (select p3 idxl) t;
             yq2 = map2 (+) yq1 (select p2 idxl);
             yq3 = map2 (*) yq2 t;
             yq4 = map2 (+) yq3 (select p1 idxl);
             yq5 = map2 (*) yq4 t;
             yq6 = map2 (+) yq5 (select p0 idxl)
         in yq6))"

definition interp_poly ::
  "real list \<Rightarrow> real list list \<Rightarrow> real list list \<Rightarrow> real list \<Rightarrow> int list \<Rightarrow> error + real list list" where
  "interp_poly x ks y xq idxl =
     (if \<not> shapes_agree (length x) ks y then Inl SizeMismatch
      else (let xl = butlast x;
                dx = map2 (-) (tl x) xl
            in case gather xl idxl of
                 Inl e \<Rightarrow> Inl e
               | Inr xlq \<Rightarrow>
                   (case gather dx idxl of
                      Inl e \<Rightarrow> Inl e
                    | Inr dxq \<Rightarrow>
                        (let t = map2 (/) (map2 (-) xq xlq) dxq
                         in Inr (map2 (\<lambda>k yrow. horner (poly_coeffs x k yrow) idxl t) ks y)))))"

text \<open>Lines 176 to 197: the Hermite basis.\<close>

definition hermite_row ::
  "real list \<Rightarrow> real list \<Rightarrow> int list \<Rightarrow> int list \<Rightarrow> real list \<Rightarrow> real list \<Rightarrow> real list" where
  "hermite_row k yrow idxl idxr dxrl t =
     (let yl = select yrow idxl;
          yr = select yrow idxr;
          kl = select k idxl;
          kr = select k idxr;
          tinv = map (\<lambda>v. 1 - v) t;
          tta = map2 (*) (map2 (*) t tinv) tinv;
          ttb = map2 (*) (map2 (*) t tinv) t;
          tyl = map2 (-) (map2 (+) tinv tta) ttb;
          tyr = map2 (+) (map2 (-) t tta) ttb;
          tkl = map2 (*) tta dxrl;
          tkr = map2 (*) (map uminus ttb) dxrl
      in map2 (+) (map2 (+) (map2 (+) (map2 (*) yl tyl) (map2 (*) yr tyr)) (map2 (*) kl tkl))
                  (map2 (*) kr tkr))"

definition interp_hermite ::
  "real list \<Rightarrow> real list list \<Rightarrow> real list list \<Rightarrow> real list \<Rightarrow> int list \<Rightarrow> int list \<Rightarrow> error + real list list" where
  "interp_hermite x ks y xq idxl idxr =
     (case gather x idxl of
        Inl e \<Rightarrow> Inl e
      | Inr xl \<Rightarrow>
          (case gather x idxr of
             Inl e \<Rightarrow> Inl e
           | Inr xr \<Rightarrow>
               if \<not> shapes_agree (length x) ks y then Inl SizeMismatch
               else (let dxrl = map2 (-) xr xl;
                         t = map2 (/) (map2 (-) xq xl) dxrl
                     in Inr (map2 (\<lambda>k yrow. hermite_row k yrow idxl idxr dxrl t) ks y))))"

text \<open>
  \<^verbatim>\<open>CubicSpline1D._interp\<close>. Lines 136 to 139 choose the slope coefficients: the
  cached ones, or the product of the spline matrix and the ordinates of the call.
\<close>

definition current_ks :: "CubicSpline1D \<Rightarrow> real list list \<Rightarrow> error + real list list" where
  "current_ks self y =
     (if self_y_is_given self
      then (case self_ks self of None \<Rightarrow> Inl AttributeError | Some k \<Rightarrow> Inr k)
      else get_ks (self_spline_mat_inv self) y)"

definition interp :: "CubicSpline1D \<Rightarrow> real list \<Rightarrow> real list list \<Rightarrow> error + real list list" where
  "interp self xq y =
     (case current_ks self y of
        Inl e \<Rightarrow> Inl e
      | Inr ks \<Rightarrow>
          (let x = self_x self;
               idxr = get_idxr x xq;
               idxl = get_idxl x xq
           in if length xq > length x
              then interp_poly x ks y xq idxl
              else interp_hermite x ks y xq idxl idxr))"

section \<open>Extrapolation and the facade\<close>

text \<open>A value of the result: a number, or not-a-number.\<close>

datatype fval = Fin real | NaN

definition is_mode :: "extrap \<Rightarrow> string \<Rightarrow> bool" where
  "is_mode e s = (case e of ExtrapStr t \<Rightarrow> t = s | _ \<Rightarrow> False)"

text \<open>
  Boolean masks: \<^verbatim>\<open>v[mask]\<close> keeps the entries at the true positions, in order;
  \<^verbatim>\<open>base[..., mask] = vals\<close> writes \<open>vals\<close>, broadcast to the number of true positions,
  to those positions in order.
\<close>

definition masked_select :: "bool list \<Rightarrow> 'a list \<Rightarrow> 'a list" where
  "masked_select msk v = map snd (filter fst (zip msk v))"

fun masked_put :: "bool list \<Rightarrow> 'a list \<Rightarrow> 'a list \<Rightarrow> 'a list" where
  "masked_put (m # ms) (b # bs) vs =
     (if m then (case vs of [] \<Rightarrow> b # masked_put ms bs [] | v # vs' \<Rightarrow> v # masked_put ms bs vs')
      else b # masked_put ms bs vs)"
| "masked_put _ bs _ = bs"

definition masked_assign :: "bool list \<Rightarrow> 'a list \<Rightarrow> 'a list \<Rightarrow> error + 'a list" where
  "masked_assign msk vals base =
     (case broadcast_to (length (filter id msk)) vals of
        Inl e \<Rightarrow> Inl e
      | Inr vs \<Rightarrow> Inr (masked_put msk base vs))"

text \<open>
  Modelled from the spec: \<^verbatim>\<open>get_extrap_pos\<close> of \<^verbatim>\<open>extrap_utils\<close>, which maps the
  exterior abscissas into the domain. The spec gives the mode \<^verbatim>\<open>"bound"\<close> ("clamps the
  abscissa to the nearest domain edge") and leaves the formulas of \<^verbatim>\<open>"mirror"\<close> and
  \<^verbatim>\<open>"periodic"\<close> open: these are the parameter \<open>remap\<close>.
\<close>

definition get_extrap_pos ::
  "(string \<Rightarrow> real \<Rightarrow> real \<Rightarrow> real \<Rightarrow> real) \<Rightarrow> real list \<Rightarrow> extrap \<Rightarrow> real \<Rightarrow> real \<Rightarrow> real list" where
  "get_extrap_pos remap xqe e xmin xmax =
     (case e of
        ExtrapStr s \<Rightarrow>
          if s = ''bound''
          then map (\<lambda>q. if q < xmin then xmin else if q > xmax then xmax else q) xqe
          else map (\<lambda>q. remap s q xmin xmax) xqe
      | _ \<Rightarrow> xqe)"

text \<open>
  Modelled from the spec: \<^verbatim>\<open>get_extrap_val\<close> of \<^verbatim>\<open>extrap_utils\<close>, the values at the
  exterior abscissas: a constant "broadcasts the fixed value", \<^verbatim>\<open>"nan"\<close> "broadcasts
  not-a-number", a callable is applied "directly to the exterior abscissas". The spec
  names no other value mode.
\<close>

definition get_extrap_val :: "real list \<Rightarrow> real list list \<Rightarrow> extrap \<Rightarrow> error + fval list" where
  "get_extrap_val xqe y e =
     (case e of
        ExtrapConst c \<Rightarrow> Inr (map (\<lambda>_. Fin c) xqe)
      | ExtrapFun f \<Rightarrow> Inr (map Fin (f xqe))
      | ExtrapStr s \<Rightarrow> if s = ''nan'' then Inr (map (\<lambda>_. NaN) xqe) else Inl (ExtrapError s))"

text \<open>
  \<^verbatim>\<open>check_periodic_value\<close>. \<^verbatim>\<open>torch.allclose(a, b)\<close> holds when every pair of entries
  satisfies \<open>\<bar>a - b\<bar> \<le> atol + rtol * \<bar>b\<bar>\<close> with the default \<open>rtol = 1e-05\<close> and
  \<open>atol = 1e-08\<close>. \<^verbatim>\<open>y[..., 0]\<close> raises on a last axis of size zero.
\<close>

definition allclose :: "real list \<Rightarrow> real list \<Rightarrow> bool" where
  "allclose a b = list_all (\<lambda>(u, v). \<bar>u - v\<bar> \<le> 1 / 10 ^ 8 + 1 / 10 ^ 5 * \<bar>v\<bar>) (zip a b)"

definition check_periodic_value :: "real list list \<Rightarrow> error + unit" where
  "check_periodic_value y =
     (if \<not> list_all (\<lambda>r. r \<noteq> []) y then Inl IndexError
      else if \<not> allclose (map hd y) (map last y) then Inl NotPeriodic
      else Inr ())"

definition check_and_get_extrap :: "extrap option \<Rightarrow> string \<Rightarrow> error + extrap" where
  "check_and_get_extrap e bc_type =
     (case e of
        None \<Rightarrow> (case map_of [(''natural'', ''nan''), (''clamped'', ''mirror'')] bc_type of
                   None \<Rightarrow> Inl (KeyError bc_type)
                 | Some s \<Rightarrow> Inr (ExtrapStr s))
      | Some v \<Rightarrow> Inr v)"

text \<open>
  \<^verbatim>\<open>BaseInterp1D.__call__\<close>, in two parts. \<open>call_eval\<close> is lines 38 to 57, the
  evaluation once the ordinates are chosen; \<^verbatim>\<open>torch.empty\<close> gives a buffer of arbitrary
  contents, here zeros, and both assignments together overwrite every entry of it.
  \<open>call\<close> is the whole method: its result is the list of the warnings issued and the
  value or the exception.
\<close>

definition warning_msg :: string where
  "warning_msg = ''y has been supplied when initiating this instance. This value of y will be ignored''"

definition fin_rows :: "error + real list list \<Rightarrow> error + fval list list" where
  "fin_rows r = (case r of Inl e \<Rightarrow> Inl e | Inr rows \<Rightarrow> Inr (map (map Fin) rows))"

definition call_eval ::
  "(string \<Rightarrow> real \<Rightarrow> real \<Rightarrow> real \<Rightarrow> real) \<Rightarrow> CubicSpline1D \<Rightarrow> real list \<Rightarrow> real list list
   \<Rightarrow> error + fval list list" where
  "call_eval remap self xq y =
     (let e = self_extrap self;
          xqinterp_mask = map (\<lambda>q. q \<ge> self_xmin self \<and> q \<le> self_xmax self) xq;
          xqextrap_mask = map Not xqinterp_mask;
          allinterp = list_all id xqinterp_mask
      in if allinterp then fin_rows (interp self xq y)
         else if is_mode e ''mirror'' \<or> is_mode e ''periodic'' \<or> is_mode e ''bound''
         then (case masked_assign xqextrap_mask
                      (get_extrap_pos remap (masked_select xqextrap_mask xq) e
                         (self_xmin self) (self_xmax self)) xq of
                 Inl err \<Rightarrow> Inl err
               | Inr xq2 \<Rightarrow> fin_rows (interp self xq2 y))
         else (case fin_rows (interp self (masked_select xqinterp_mask xq) y) of
                 Inl err \<Rightarrow> Inl err
               | Inr yqinterp \<Rightarrow>
                   (case get_extrap_val (masked_select xqextrap_mask xq) y e of
                      Inl err \<Rightarrow> Inl err
                    | Inr yqextrap \<Rightarrow>
                        (case broadcast_to (length (filter id xqextrap_mask)) yqextrap of
                           Inl err \<Rightarrow> Inl err
                         | Inr ext \<Rightarrow>
                             Inr (map (\<lambda>row. masked_put xqextrap_mask
                                         (masked_put xqinterp_mask
                                            (replicate (length xq) (Fin 0)) row) ext)
                                    yqinterp)))))"

definition call ::
  "(string \<Rightarrow> real \<Rightarrow> real \<Rightarrow> real \<Rightarrow> real) \<Rightarrow> CubicSpline1D \<Rightarrow> real list \<Rightarrow> real list list option
   \<Rightarrow> string list \<times> (error + fval list list)" where
  "call remap self xq y_arg =
     (let warns = (if base_y_is_given self \<and> y_arg \<noteq> None then [warning_msg] else []);
          y_used =
            (if base_y_is_given self
             then (case self_y self of None \<Rightarrow> Inl AttributeError | Some v \<Rightarrow> Inr v)
             else (case y_arg of
                     None \<Rightarrow> Inl MissingY
                   | Some v \<Rightarrow>
                       if is_periodic_required self
                       then (case check_periodic_value v of Inl err \<Rightarrow> Inl err | Inr _ \<Rightarrow> Inr v)
                       else Inr v))
      in (warns,
          case y_used of
            Inl err \<Rightarrow> Inl err
          | Inr y \<Rightarrow> call_eval remap self xq y))"

text \<open>
  \<^verbatim>\<open>CubicSpline1D.__init__\<close>. The abscissa argument is a tensor of any shape, given by
  its shape and its entries; \<^verbatim>\<open>torch.min(x, dim=-1)\<close> raises on a last axis of size zero.
  \<open>bc_of\<close> is lines 109 and 110: no boundary condition means \<^verbatim>\<open>"natural"\<close>.
\<close>

datatype tensor = Tensor (shape: "nat list") (entries: "real list")

definition tmin :: "real list \<Rightarrow> real" where
  "tmin v = fold min (tl v) (hd v)"

definition tmax :: "real list \<Rightarrow> real" where
  "tmax v = fold max (tl v) (hd v)"

definition bc_of :: "string option \<Rightarrow> string" where
  "bc_of bc_arg = (case bc_arg of None \<Rightarrow> ''natural'' | Some b \<Rightarrow> b)"

definition CubicSpline1D_init ::
  "tensor \<Rightarrow> real list list option \<Rightarrow> string option \<Rightarrow> extrap option \<Rightarrow> error + CubicSpline1D" where
  "CubicSpline1D_init xt y bc_arg extrap_arg =
     (let bc_type = bc_of bc_arg
      in case check_and_get_extrap extrap_arg bc_type of
           Inl err \<Rightarrow> Inl err
         | Inr e \<Rightarrow>
             if shape xt \<noteq> [] \<and> last (shape xt) = 0 then Inl EmptyReduction
             else if length (shape xt) \<noteq> 1 then Inl NotOneDim
             else if bc_type \<notin> set [''natural'', ''clamped''] then Inl (UnimplementedBc bc_type)
             else (let x = entries xt;
                       periodic = is_mode e ''periodic''
                   in case get_spline_mat_inv x bc_type of
                        Inl err \<Rightarrow> Inl err
                      | Inr Z \<Rightarrow>
                          (let self = \<lparr> base_y_is_given = (y \<noteq> None),
                                        self_extrap = e,
                                        self_xmin = tmin x,
                                        self_xmax = tmax x,
                                        is_periodic_required = periodic,
                                        self_x = x,
                                        self_bc_type = bc_type,
                                        self_spline_mat_inv = Z,
                                        self_y_is_given = (y \<noteq> None),
                                        self_y = None,
                                        self_ks = None \<rparr>
                           in case y of
                                None \<Rightarrow> Inr self
                              | Some yv \<Rightarrow>
                                  (case (if periodic then check_periodic_value yv else Inr ()) of
                                     Inl err \<Rightarrow> Inl err
                                   | Inr _ \<Rightarrow>
                                       (case get_ks Z yv of
                                          Inl err \<Rightarrow> Inl err
                                        | Inr k \<Rightarrow> Inr (self\<lparr> self_y := Some yv, self_ks := Some k \<rparr>))))))"

section \<open>The formulas of the specification\<close>

text \<open>
  The two evaluation formulas in the words of the specification, for one query \<open>q\<close> on
  the segment with end abscissas \<open>xl\<close>, \<open>xr\<close>, ordinates \<open>yl\<close>, \<open>yr\<close> and slope
  coefficients \<open>kl\<close>, \<open>kr\<close>: the polynomial form with \<open>p0 = y_l\<close>, \<open>p1 = dy + a\<close>,
  \<open>p2 = b - 2a\<close>, \<open>p3 = a - b\<close> evaluated by nested multiplication, and the form in the
  Hermite basis.
\<close>

definition poly_value :: "real \<Rightarrow> real \<Rightarrow> real \<Rightarrow> real \<Rightarrow> real \<Rightarrow> real \<Rightarrow> real \<Rightarrow> real" where
  "poly_value xl xr yl yr kl kr q =
     (let dx = xr - xl; dy = yr - yl;
          a = kl * dx - dy; b = - kr * dx + dy;
          p0 = yl; p1 = dy + a; p2 = b - 2 * a; p3 = a - b;
          t = (q - xl) / dx
      in ((p3 * t + p2) * t + p1) * t + p0)"

definition hermite_value :: "real \<Rightarrow> real \<Rightarrow> real \<Rightarrow> real \<Rightarrow> real \<Rightarrow> real \<Rightarrow> real \<Rightarrow> real" where
  "hermite_value xl xr yl yr kl kr q =
     (let dx = xr - xl;
          t = (q - xl) / dx; tinv = 1 - t;
          tyl = tinv + t * tinv\<^sup>2 - t\<^sup>2 * tinv;
          tyr = t - t * tinv\<^sup>2 + t\<^sup>2 * tinv;
          tkl = t * tinv\<^sup>2 * dx;
          tkr = - t\<^sup>2 * tinv * dx
      in yl * tyl + yr * tyr + kl * tkl + kr * tkr)"

text \<open>
  The value at one query \<open>q\<close> for one row \<open>k\<close>, \<open>y\<close>: the segment is located as the
  specification says (first index whose abscissa is not below \<open>q\<close>, clamped to
  \<open>[1, nr - 1]\<close>, and its left neighbour) and the formula \<open>f\<close> is applied to it.
\<close>

definition segment_value ::
  "(real \<Rightarrow> real \<Rightarrow> real \<Rightarrow> real \<Rightarrow> real \<Rightarrow> real \<Rightarrow> real \<Rightarrow> real)
   \<Rightarrow> real list \<Rightarrow> real list \<Rightarrow> real list \<Rightarrow> real \<Rightarrow> real" where
  "segment_value f x k y q =
     (let idxr = clamp (int (lower_bound x q 0 (length x))) 1 (int (length x) - 1);
          idxl = idxr - 1
      in f (x ! nat idxl) (x ! nat idxr) (y ! nat idxl) (y ! nat idxr) (k ! nat idxl) (k ! nat idxr) q)"

text \<open>
  The matrices in the words of the specification. \<open>spec_dxinv x i\<close> is the inverse
  spacing \<open>1 / (x[i] - x[i-1])\<close> padded with zero at both ends (\<open>i = 0\<close> and \<open>i = nr\<close>).
  The left-hand matrix is tridiagonal with diagonal \<open>2 * (dxinv[i] + dxinv[i+1])\<close> and
  off-diagonals \<open>dxinv\<close>; the right-hand matrix has diagonal
  \<open>3 * (dxinv[i]^2 - dxinv[i+1]^2)\<close>, the entry \<open>3 * dxinv[i+1]^2\<close> right of the diagonal
  and \<open>- 3 * dxinv[i]^2\<close> left of it; for \<^verbatim>\<open>"clamped"\<close> the first and the last row are
  a row of the identity on the left and zero on the right.
\<close>

definition spec_dxinv :: "real list \<Rightarrow> nat \<Rightarrow> real" where
  "spec_dxinv x i = (if i = 0 \<or> length x \<le> i then 0 else 1 / (x ! i - x ! (i - 1)))"

definition spec_lefthand :: "real list \<Rightarrow> string \<Rightarrow> nat \<Rightarrow> nat \<Rightarrow> real" where
  "spec_lefthand x bc_type i j =
     (if bc_type = ''clamped'' \<and> (i = 0 \<or> i = length x - 1) then (if j = i then 1 else 0)
      else if j = i then 2 * (spec_dxinv x i + spec_dxinv x (i + 1))
      else if j = i + 1 then spec_dxinv x (i + 1)
      else if i = j + 1 then spec_dxinv x i
      else 0)"

definition spec_righthand :: "real list \<Rightarrow> string \<Rightarrow> nat \<Rightarrow> nat \<Rightarrow> real" where
  "spec_righthand x bc_type i j =
     (if bc_type = ''clamped'' \<and> (i = 0 \<or> i = length x - 1) then 0
      else if j = i then 3 * ((spec_dxinv x i)\<^sup>2 - (spec_dxinv x (i + 1))\<^sup>2)
      else if j = i + 1 then 3 * (spec_dxinv x (i + 1))\<^sup>2
      else if i = j + 1 then - 3 * (spec_dxinv x i)\<^sup>2
      else 0)"

definition spec_matrix :: "nat \<Rightarrow> (nat \<Rightarrow> nat \<Rightarrow> real) \<Rightarrow> real list list" where
  "spec_matrix n f = map (\<lambda>i. map (\<lambda>j. f i j) [0..<n]) [0..<n]"

text \<open>
  A row \<open>a\<close> is strictly dominated by its entry \<open>i\<close> when the absolute values of
  the other entries sum to less than the absolute value of that entry.
\<close>

definition diag_dominant :: "real list \<Rightarrow> nat \<Rightarrow> bool" where
  "diag_dominant a i = ((\<Sum>j\<in>{..<length a} - {i}. \<bar>a ! j\<bar>) < \<bar>a ! i\<bar>)"

section \<open>Properties of segment location\<close>

lemma lower_bound_range:
  "lo \<le> hi \<Longrightarrow> lo \<le> lower_bound xs v lo hi \<and> lower_bound xs v lo hi \<le> hi"
proof (induction xs v lo hi rule: lower_bound.induct)
  case (1 xs v lo hi)
  show ?case
  proof (cases "lo < hi")
    case False
    with "1.prems" show ?thesis by (simp add: lower_bound.simps)
  next
    case True
    define mid where "mid = lo + (hi - lo) div 2"
    have m: "lo \<le> mid" "mid < hi" using True by (auto simp: mid_def)
    show ?thesis
    proof (cases "xs ! mid \<ge> v")
      case False
      have "mid + 1 \<le> lower_bound xs v (mid + 1) hi \<and> lower_bound xs v (mid + 1) hi \<le> hi"
        using "1.IH"(1)[OF True mid_def] False m by simp
      moreover have "lower_bound xs v lo hi = lower_bound xs v (mid + 1) hi"
        using True False by (subst lower_bound.simps) (simp add: mid_def Let_def)
      ultimately show ?thesis using m by simp
    next
      case ge: True
      have "lo \<le> lower_bound xs v lo mid \<and> lower_bound xs v lo mid \<le> mid"
        using "1.IH"(2)[OF True mid_def] ge m by simp
      moreover have "lower_bound xs v lo hi = lower_bound xs v lo mid"
        using True ge by (subst lower_bound.simps) (simp add: mid_def Let_def)
      ultimately show ?thesis using m by simp
    qed
  qed
qed

lemma lower_bound_below:
  "lo \<le> hi \<Longrightarrow> hi \<le> length xs \<Longrightarrow> sorted xs \<Longrightarrow> \<forall>i<lo. xs ! i < v \<Longrightarrow>
   \<forall>i<lower_bound xs v lo hi. xs ! i < v"
proof (induction xs v lo hi rule: lower_bound.induct)
  case (1 xs v lo hi)
  show ?case
  proof (cases "lo < hi")
    case False
    with "1.prems" show ?thesis by (simp add: lower_bound.simps)
  next
    case True
    define mid where "mid = lo + (hi - lo) div 2"
    have m: "lo \<le> mid" "mid < hi" using True by (auto simp: mid_def)
    show ?thesis
    proof (cases "xs ! mid \<ge> v")
      case False
      have "\<forall>i<mid + 1. xs ! i < v"
      proof (intro allI impI)
        fix i assume "i < mid + 1"
        then have "i \<le> mid" by simp
        then have "xs ! i \<le> xs ! mid"
          using \<open>sorted xs\<close> m "1.prems"(2) by (simp add: sorted_nth_mono)
        with False show "xs ! i < v" by simp
      qed
      then have "\<forall>i<lower_bound xs v (mid + 1) hi. xs ! i < v"
        using "1.IH"(1)[OF True mid_def] False m "1.prems" by simp
      moreover have "lower_bound xs v lo hi = lower_bound xs v (mid + 1) hi"
        using True False by (subst lower_bound.simps) (simp add: mid_def Let_def)
      ultimately show ?thesis by simp
    next
      case ge: True
      have "\<forall>i<lower_bound xs v lo mid. xs ! i < v"
        using "1.IH"(2)[OF True mid_def] ge m "1.prems" by simp
      moreover have "lower_bound xs v lo hi = lower_bound xs v lo mid"
        using True ge by (subst lower_bound.simps) (simp add: mid_def Let_def)
      ultimately show ?thesis by simp
    qed
  qed
qed

lemma lower_bound_above:
  "lo \<le> hi \<Longrightarrow> hi \<le> length xs \<Longrightarrow> sorted xs \<Longrightarrow> \<forall>i. hi \<le> i \<and> i < length xs \<longrightarrow> v \<le> xs ! i \<Longrightarrow>
   \<forall>i. lower_bound xs v lo hi \<le> i \<and> i < length xs \<longrightarrow> v \<le> xs ! i"
proof (induction xs v lo hi rule: lower_bound.induct)
  case (1 xs v lo hi)
  show ?case
  proof (cases "lo < hi")
    case False
    with "1.prems" show ?thesis by (simp add: lower_bound.simps)
  next
    case True
    define mid where "mid = lo + (hi - lo) div 2"
    have m: "lo \<le> mid" "mid < hi" using True by (auto simp: mid_def)
    show ?thesis
    proof (cases "xs ! mid \<ge> v")
      case False
      have "\<forall>i. lower_bound xs v (mid + 1) hi \<le> i \<and> i < length xs \<longrightarrow> v \<le> xs ! i"
        using "1.IH"(1)[OF True mid_def] False m "1.prems" by simp
      moreover have "lower_bound xs v lo hi = lower_bound xs v (mid + 1) hi"
        using True False by (subst lower_bound.simps) (simp add: mid_def Let_def)
      ultimately show ?thesis by simp
    next
      case ge: True
      have "\<forall>i. mid \<le> i \<and> i < length xs \<longrightarrow> v \<le> xs ! i"
      proof (intro allI impI)
        fix i assume "mid \<le> i \<and> i < length xs"
        then have "xs ! mid \<le> xs ! i"
          using \<open>sorted xs\<close> by (simp add: sorted_nth_mono)
        with ge show "v \<le> xs ! i" by simp
      qed
      then have "\<forall>i. lower_bound xs v lo mid \<le> i \<and> i < length xs \<longrightarrow> v \<le> xs ! i"
        using "1.IH"(2)[OF True mid_def] ge m "1.prems" by simp
      moreover have "lower_bound xs v lo hi = lower_bound xs v lo mid"
        using True ge by (subst lower_bound.simps) (simp add: mid_def Let_def)
      ultimately show ?thesis by simp
    qed
  qed
qed

lemma strictly_increasing_sorted: "strictly_increasing x \<Longrightarrow> sorted x"
  unfolding strictly_increasing_def
  by (induction x) (auto simp: less_imp_le)

lemma strictly_increasing_nth:
  "strictly_increasing x \<Longrightarrow> i < j \<Longrightarrow> j < length x \<Longrightarrow> x ! i < x ! j"
  unfolding strictly_increasing_def by (simp add: sorted_wrt_nth_less)

lemma length_get_idxr: "length (get_idxr x xq) = length xq"
  by (simp add: get_idxr_def searchsorted_def)

lemma length_get_idxl: "length (get_idxl x xq) = length xq"
  by (simp add: get_idxl_def length_get_idxr)

lemma get_idxr_nth:
  "j < length xq \<Longrightarrow>
   get_idxr x xq ! j = clamp (int (lower_bound x (xq ! j) 0 (length x))) 1 (int (length x) - 1)"
  by (simp add: get_idxr_def searchsorted_def)

lemma get_idxl_nth: "j < length xq \<Longrightarrow> get_idxl x xq ! j = get_idxr x xq ! j - 1"
  by (simp add: get_idxl_def length_get_idxr)

lemma get_idxr_bounds:
  "2 \<le> length x \<Longrightarrow> j < length xq \<Longrightarrow>
   1 \<le> get_idxr x xq ! j \<and> get_idxr x xq ! j \<le> int (length x) - 1"
  by (simp add: get_idxr_nth clamp_def)

text \<open>
  Claim C4. For strictly increasing abscissas \<open>x\<close> with at least two entries and every
  query \<open>xq ! j\<close>, inside the domain or not: the search returns the first index whose
  abscissa is not below the query (or \<open>nr\<close> when there is none); \<open>idxr\<close> is that index
  clamped to \<open>[1, nr - 1]\<close> and \<open>idxl = idxr - 1\<close>; hence \<open>0 \<le> idxl < idxr \<le> nr - 1\<close>, both
  indices are inside \<open>x\<close>, and the segment \<open>[x[idxl], x[idxr]]\<close> has nonzero width.
\<close>

theorem C4_segment_location:
  assumes "strictly_increasing x" and "2 \<le> length x" and "j < length xq"
  shows "searchsorted x xq ! j \<le> int (length x)
       \<and> (\<forall>i. int i < searchsorted x xq ! j \<longrightarrow> x ! i < xq ! j)
       \<and> (\<forall>i. searchsorted x xq ! j \<le> int i \<and> i < length x \<longrightarrow> xq ! j \<le> x ! i)
       \<and> get_idxr x xq ! j = clamp (searchsorted x xq ! j) 1 (int (length x) - 1)
       \<and> get_idxl x xq ! j = get_idxr x xq ! j - 1
       \<and> 0 \<le> get_idxl x xq ! j
       \<and> get_idxl x xq ! j < get_idxr x xq ! j
       \<and> get_idxr x xq ! j \<le> int (length x) - 1
       \<and> x ! nat (get_idxl x xq ! j) < x ! nat (get_idxr x xq ! j)"
proof -
  let ?r = "lower_bound x (xq ! j) 0 (length x)"
  have s: "searchsorted x xq ! j = int ?r"
    using assms(3) by (simp add: searchsorted_def)
  have srt: "sorted x" using assms(1) by (rule strictly_increasing_sorted)
  have r1: "?r \<le> length x" using lower_bound_range[of 0 "length x" x "xq ! j"] by simp
  have r2: "\<forall>i<?r. x ! i < xq ! j"
    using lower_bound_below[of 0 "length x" x "xq ! j"] srt by simp
  have r3: "\<forall>i. ?r \<le> i \<and> i < length x \<longrightarrow> xq ! j \<le> x ! i"
    using lower_bound_above[of 0 "length x" x "xq ! j"] srt by simp
  have b: "1 \<le> get_idxr x xq ! j" "get_idxr x xq ! j \<le> int (length x) - 1"
    using get_idxr_bounds[OF assms(2,3)] by simp_all
  have l: "get_idxl x xq ! j = get_idxr x xq ! j - 1"
    using assms(3) by (rule get_idxl_nth)
  have "nat (get_idxl x xq ! j) < nat (get_idxr x xq ! j)" using b l by simp
  moreover have "nat (get_idxr x xq ! j) < length x" using b by simp
  ultimately have w: "x ! nat (get_idxl x xq ! j) < x ! nat (get_idxr x xq ! j)"
    using assms(1) by (simp add: strictly_increasing_nth)
  show ?thesis
    using s r1 r2 r3 b l w get_idxr_nth[OF assms(3), of x] by simp
qed

theorem C4_segment_location_witness:
  "strictly_increasing [0, 1, 2, 3] \<and> 2 \<le> length [0, 1, 2, 3 :: real]
   \<and> (2 :: nat) < length [- 1, 5 / 2, 7 :: real]
   \<and> get_idxl [0, 1, 2, 3] [- 1, 5 / 2, 7] = [0, 2, 2]
   \<and> get_idxr [0, 1, 2, 3] [- 1, 5 / 2, 7] = [1, 3, 3]
   \<and> 0 \<le> get_idxl [0, 1, 2, 3] [- 1, 5 / 2, 7] ! 2
   \<and> get_idxl [0, 1, 2, 3] [- 1, 5 / 2, 7] ! 2 < get_idxr [0, 1, 2, 3] [- 1, 5 / 2, 7] ! 2
   \<and> get_idxr [0, 1, 2, 3] [- 1, 5 / 2, 7] ! 2 \<le> int (length [0, 1, 2, 3 :: real]) - 1"
proof -
  have h1: "strictly_increasing [0, 1, 2, 3]" by (simp add: strictly_increasing_def)
  have h2: "2 \<le> length [0, 1, 2, 3 :: real]" by simp
  have h3: "(2 :: nat) < length [- 1, 5 / 2, 7 :: real]" by simp
  have v: "get_idxl [0, 1, 2, 3] [- 1, 5 / 2, 7] = [0, 2, 2]"
          "get_idxr [0, 1, 2, 3] [- 1, 5 / 2, 7] = [1, 3, 3]"
    by code_simp+
  show ?thesis
    using h1 h2 h3 v C4_segment_location[OF h1 h2 h3] by simp
qed

section \<open>Properties of the piecewise evaluator\<close>

lemma poly_hermite_value: "poly_value xl xr yl yr kl kr q = hermite_value xl xr yl yr kl kr q"
proof -
  define dx where "dx = xr - xl"
  define t where "t = (q - xl) / dx"
  have "(((kl * dx - (yr - yl) - (- kr * dx + (yr - yl))) * t
          + (- kr * dx + (yr - yl) - 2 * (kl * dx - (yr - yl)))) * t
          + (yr - yl + (kl * dx - (yr - yl)))) * t + yl
        = yl * (1 - t + t * (1 - t)\<^sup>2 - t\<^sup>2 * (1 - t))
          + yr * (t - t * (1 - t)\<^sup>2 + t\<^sup>2 * (1 - t))
          + kl * (t * (1 - t)\<^sup>2 * dx) + kr * (- t\<^sup>2 * (1 - t) * dx)"
    by (simp add: algebra_simps power2_eq_square)
  then show ?thesis
    unfolding poly_value_def hermite_value_def Let_def dx_def t_def .
qed

lemma gather_select:
  "list_all (\<lambda>i. 0 \<le> i \<and> i < int (length v)) idx \<Longrightarrow> gather v idx = Inr (select v idx)"
  by (simp add: gather_def select_def)

lemma length_select: "length (select v idx) = length idx"
  by (simp add: select_def)

lemma select_nth: "j < length idx \<Longrightarrow> select v idx ! j = v ! nat (idx ! j)"
  by (simp add: select_def)

lemma idxl_range:
  assumes "2 \<le> length x"
  shows "list_all (\<lambda>i. 0 \<le> i \<and> i < int (length x) - 1) (get_idxl x xq)"
  unfolding list_all_length
proof (intro allI impI)
  fix j assume "j < length (get_idxl x xq)"
  then have j: "j < length xq" by (simp add: length_get_idxl)
  from get_idxr_bounds[OF assms j] get_idxl_nth[OF j, of x]
  show "0 \<le> get_idxl x xq ! j \<and> get_idxl x xq ! j < int (length x) - 1" by simp
qed

lemma idxr_range:
  assumes "2 \<le> length x"
  shows "list_all (\<lambda>i. 0 \<le> i \<and> i < int (length x)) (get_idxr x xq)"
  unfolding list_all_length
proof (intro allI impI)
  fix j assume "j < length (get_idxr x xq)"
  then have j: "j < length xq" by (simp add: length_get_idxr)
  from get_idxr_bounds[OF assms j]
  show "0 \<le> get_idxr x xq ! j \<and> get_idxr x xq ! j < int (length x)" by simp
qed

lemma idxr_nat:
  assumes "2 \<le> length x" and "j < length xq"
  shows "nat (get_idxr x xq ! j) = Suc (nat (get_idxl x xq ! j))"
    and "Suc (nat (get_idxl x xq ! j)) < length x"
  using get_idxr_bounds[OF assms] get_idxl_nth[OF assms(2), of x] by linarith+

lemma horner_nth:
  assumes "length t = length idxl" and "j < length idxl"
  shows "horner (p0, p1, p2, p3) idxl t ! j =
         ((p3 ! nat (idxl ! j) * t ! j + p2 ! nat (idxl ! j)) * t ! j + p1 ! nat (idxl ! j)) * t ! j
         + p0 ! nat (idxl ! j)"
  using assms by (simp add: horner_def select_def Let_def)

lemma length_horner:
  "length t = length idxl \<Longrightarrow> length (horner (p0, p1, p2, p3) idxl t) = length idxl"
  by (simp add: horner_def select_def Let_def)

lemma poly_coeffs_nth:
  assumes "length k = length x" and "length y = length x" and "Suc i < length x"
  shows "case poly_coeffs x k y of (p0, p1, p2, p3) \<Rightarrow>
           p0 ! i = y ! i
         \<and> p1 ! i = (y ! Suc i - y ! i) + (k ! i * (x ! Suc i - x ! i) - (y ! Suc i - y ! i))
         \<and> p2 ! i = (- k ! Suc i * (x ! Suc i - x ! i) + (y ! Suc i - y ! i))
                    - 2 * (k ! i * (x ! Suc i - x ! i) - (y ! Suc i - y ! i))
         \<and> p3 ! i = (k ! i * (x ! Suc i - x ! i) - (y ! Suc i - y ! i))
                    - (- k ! Suc i * (x ! Suc i - x ! i) + (y ! Suc i - y ! i))"
  using assms by (simp add: poly_coeffs_def Let_def nth_butlast nth_tl)

lemma segment_value_nth:
  "j < length xq \<Longrightarrow>
   segment_value f x k y (xq ! j) =
   f (x ! nat (get_idxl x xq ! j)) (x ! nat (get_idxr x xq ! j))
     (y ! nat (get_idxl x xq ! j)) (y ! nat (get_idxr x xq ! j))
     (k ! nat (get_idxl x xq ! j)) (k ! nat (get_idxr x xq ! j)) (xq ! j)"
  by (simp add: segment_value_def Let_def get_idxl_nth get_idxr_nth)

lemma poly_row:
  assumes nr: "2 \<le> length x" and k: "length k = length x" and y: "length y = length x"
  shows "horner (poly_coeffs x k y) (get_idxl x xq)
           (map2 (/) (map2 (-) xq (select (butlast x) (get_idxl x xq)))
                     (select (map2 (-) (tl x) (butlast x)) (get_idxl x xq)))
         = map (segment_value poly_value x k y) xq"
proof (rule nth_equalityI)
  obtain p0 p1 p2 p3 where p: "poly_coeffs x k y = (p0, p1, p2, p3)"
    by (cases "poly_coeffs x k y") auto
  let ?idxl = "get_idxl x xq"
  let ?t = "map2 (/) (map2 (-) xq (select (butlast x) ?idxl))
                     (select (map2 (-) (tl x) (butlast x)) ?idxl)"
  have lt: "length ?t = length ?idxl"
    by (simp add: length_select length_get_idxl)
  show "length (horner (poly_coeffs x k y) ?idxl ?t) = length (map (segment_value poly_value x k y) xq)"
    using lt by (simp add: p length_horner length_get_idxl)
  fix j assume "j < length (horner (poly_coeffs x k y) ?idxl ?t)"
  then have j: "j < length xq" using lt by (simp add: p length_horner length_get_idxl)
  define i where "i = nat (?idxl ! j)"
  have r: "nat (get_idxr x xq ! j) = Suc i" and i: "Suc i < length x"
    using idxr_nat[OF nr j] by (simp_all add: i_def)
  have tj: "?t ! j = (xq ! j - x ! i) / (x ! Suc i - x ! i)"
    using j i by (simp add: length_select length_get_idxl select_nth i_def nth_butlast nth_tl)
  have c: "p0 ! i = y ! i"
      "p1 ! i = (y ! Suc i - y ! i) + (k ! i * (x ! Suc i - x ! i) - (y ! Suc i - y ! i))"
      "p2 ! i = (- k ! Suc i * (x ! Suc i - x ! i) + (y ! Suc i - y ! i))
                    - 2 * (k ! i * (x ! Suc i - x ! i) - (y ! Suc i - y ! i))"
      "p3 ! i = (k ! i * (x ! Suc i - x ! i) - (y ! Suc i - y ! i))
                    - (- k ! Suc i * (x ! Suc i - x ! i) + (y ! Suc i - y ! i))"
    using poly_coeffs_nth[OF k y i] by (simp_all add: p)
  have "horner (poly_coeffs x k y) ?idxl ?t ! j =
        ((p3 ! i * ?t ! j + p2 ! i) * ?t ! j + p1 ! i) * ?t ! j + p0 ! i"
    unfolding p i_def using lt j by (intro horner_nth) (simp_all add: length_get_idxl)
  also have "\<dots> = poly_value (x ! i) (x ! Suc i) (y ! i) (y ! Suc i) (k ! i) (k ! Suc i) (xq ! j)"
    unfolding tj c poly_value_def Let_def ..
  also have "\<dots> = map (segment_value poly_value x k y) xq ! j"
    using j r by (simp add: segment_value_nth i_def)
  finally show "horner (poly_coeffs x k y) ?idxl ?t ! j = map (segment_value poly_value x k y) xq ! j" .
qed

lemma hermite_row_nth:
  assumes "length t = length idxl" and "length dxrl = length idxl" and "length idxr = length idxl"
    and "j < length idxl"
  shows "hermite_row k y idxl idxr dxrl t ! j =
         y ! nat (idxl ! j) * (1 - t ! j + t ! j * (1 - t ! j) * (1 - t ! j) - t ! j * (1 - t ! j) * t ! j)
         + y ! nat (idxr ! j) * (t ! j - t ! j * (1 - t ! j) * (1 - t ! j) + t ! j * (1 - t ! j) * t ! j)
         + k ! nat (idxl ! j) * (t ! j * (1 - t ! j) * (1 - t ! j) * dxrl ! j)
         + k ! nat (idxr ! j) * (- (t ! j * (1 - t ! j) * t ! j) * dxrl ! j)"
  using assms by (simp add: hermite_row_def select_def Let_def)

lemma length_hermite_row:
  assumes "length t = length idxl" and "length dxrl = length idxl" and "length idxr = length idxl"
  shows "length (hermite_row k y idxl idxr dxrl t) = length idxl"
  using assms by (simp add: hermite_row_def select_def Let_def)

lemma hermite_value_alt:
  "hermite_value xl xr yl yr kl kr q =
     (let dx = xr - xl; t = (q - xl) / dx
      in yl * (1 - t + t * (1 - t) * (1 - t) - t * (1 - t) * t)
         + yr * (t - t * (1 - t) * (1 - t) + t * (1 - t) * t)
         + kl * (t * (1 - t) * (1 - t) * dx)
         + kr * (- (t * (1 - t) * t) * dx))"
proof -
  define dx where "dx = xr - xl"
  define t where "t = (q - xl) / dx"
  have "yl * (1 - t + t * (1 - t)\<^sup>2 - t\<^sup>2 * (1 - t))
          + yr * (t - t * (1 - t)\<^sup>2 + t\<^sup>2 * (1 - t))
          + kl * (t * (1 - t)\<^sup>2 * dx) + kr * (- t\<^sup>2 * (1 - t) * dx)
      = yl * (1 - t + t * (1 - t) * (1 - t) - t * (1 - t) * t)
         + yr * (t - t * (1 - t) * (1 - t) + t * (1 - t) * t)
         + kl * (t * (1 - t) * (1 - t) * dx)
         + kr * (- (t * (1 - t) * t) * dx)"
    by (simp add: algebra_simps power2_eq_square)
  then show ?thesis
    unfolding hermite_value_def Let_def dx_def t_def .
qed

lemma hermite_row_eq:
  assumes nr: "2 \<le> length x" and k: "length k = length x" and y: "length y = length x"
  shows "hermite_row k y (get_idxl x xq) (get_idxr x xq)
           (map2 (-) (select x (get_idxr x xq)) (select x (get_idxl x xq)))
           (map2 (/) (map2 (-) xq (select x (get_idxl x xq)))
                     (map2 (-) (select x (get_idxr x xq)) (select x (get_idxl x xq))))
         = map (segment_value hermite_value x k y) xq"
proof (rule nth_equalityI)
  let ?idxl = "get_idxl x xq" and ?idxr = "get_idxr x xq"
  let ?dxrl = "map2 (-) (select x ?idxr) (select x ?idxl)"
  let ?t = "map2 (/) (map2 (-) xq (select x ?idxl)) ?dxrl"
  let ?h = "hermite_row k y ?idxl ?idxr ?dxrl ?t"
  have l: "length ?t = length ?idxl" "length ?dxrl = length ?idxl" "length ?idxr = length ?idxl"
    by (simp_all add: length_select length_get_idxl length_get_idxr)
  have len: "length ?h = length xq"
    using length_hermite_row[OF l] by (simp add: length_get_idxl)
  show "length ?h = length (map (segment_value hermite_value x k y) xq)"
    using len by simp
  fix j assume "j < length ?h"
  then have j: "j < length xq" using len by simp
  then have j': "j < length ?idxl" by (simp add: length_get_idxl)
  have d: "?dxrl ! j = x ! nat (?idxr ! j) - x ! nat (?idxl ! j)"
    using j by (simp add: length_select length_get_idxl length_get_idxr select_nth)
  have t: "?t ! j = (xq ! j - x ! nat (?idxl ! j)) / (x ! nat (?idxr ! j) - x ! nat (?idxl ! j))"
    using j by (simp add: length_select length_get_idxl length_get_idxr select_nth)
  have "?h ! j = hermite_value (x ! nat (?idxl ! j)) (x ! nat (?idxr ! j))
                   (y ! nat (?idxl ! j)) (y ! nat (?idxr ! j))
                   (k ! nat (?idxl ! j)) (k ! nat (?idxr ! j)) (xq ! j)"
    unfolding hermite_row_nth[OF l j'] hermite_value_alt Let_def d t ..
  then show "?h ! j = map (segment_value hermite_value x k y) xq ! j"
    using j by (simp add: segment_value_nth)
qed

lemma shapes_agree_zip:
  "shapes_agree n ks y \<Longrightarrow> (k, r) \<in> set (zip ks y) \<Longrightarrow> length k = n \<and> length r = n"
  by (auto simp: shapes_agree_def list_all_iff dest: set_zip_leftD set_zip_rightD)

lemma interp_poly_eq:
  assumes nr: "2 \<le> length x" and sh: "shapes_agree (length x) ks y"
  shows "interp_poly x ks y xq (get_idxl x xq) = Inr (map2 (\<lambda>k yrow. map (segment_value poly_value x k yrow) xq) ks y)"
proof -
  have r: "list_all (\<lambda>i. 0 \<le> i \<and> i < int (length (butlast x))) (get_idxl x xq)"
    using idxl_range[OF nr, of xq] nr by (auto simp: list_all_iff)
  have r2: "list_all (\<lambda>i. 0 \<le> i \<and> i < int (length (map2 (-) (tl x) (butlast x)))) (get_idxl x xq)"
    using idxl_range[OF nr, of xq] nr by (auto simp: list_all_iff)
  have "map2 (\<lambda>k yrow. horner (poly_coeffs x k yrow) (get_idxl x xq)
           (map2 (/) (map2 (-) xq (select (butlast x) (get_idxl x xq)))
                     (select (map2 (-) (tl x) (butlast x)) (get_idxl x xq)))) ks y
        = map2 (\<lambda>k yrow. map (segment_value poly_value x k yrow) xq) ks y"
    using shapes_agree_zip[OF sh] poly_row[OF nr] by (intro map_cong) auto
  then show ?thesis
    using sh by (simp add: interp_poly_def Let_def gather_select[OF r] gather_select[OF r2])
qed

lemma interp_hermite_eq:
  assumes nr: "2 \<le> length x" and sh: "shapes_agree (length x) ks y"
  shows "interp_hermite x ks y xq (get_idxl x xq) (get_idxr x xq)
         = Inr (map2 (\<lambda>k yrow. map (segment_value hermite_value x k yrow) xq) ks y)"
proof -
  have r: "list_all (\<lambda>i. 0 \<le> i \<and> i < int (length x)) (get_idxl x xq)"
    using idxl_range[OF nr, of xq] by (auto simp: list_all_iff)
  have "map2 (\<lambda>k yrow. hermite_row k yrow (get_idxl x xq) (get_idxr x xq)
           (map2 (-) (select x (get_idxr x xq)) (select x (get_idxl x xq)))
           (map2 (/) (map2 (-) xq (select x (get_idxl x xq)))
                     (map2 (-) (select x (get_idxr x xq)) (select x (get_idxl x xq))))) ks y
        = map2 (\<lambda>k yrow. map (segment_value hermite_value x k yrow) xq) ks y"
    using shapes_agree_zip[OF sh] hermite_row_eq[OF nr] by (intro map_cong) auto
  then show ?thesis
    using sh by (simp add: interp_hermite_def Let_def gather_select[OF r] gather_select[OF idxr_range[OF nr]])
qed

lemma segment_value_poly_hermite: "segment_value poly_value = segment_value hermite_value"
  by (intro ext) (simp add: segment_value_def poly_hermite_value)

lemma interp_eq:
  assumes nr: "2 \<le> length (self_x self)" and ks: "current_ks self y = Inr ks"
    and sh: "shapes_agree (length (self_x self)) ks y"
  shows "interp self xq y =
         Inr (map2 (\<lambda>k yrow. map (segment_value hermite_value (self_x self) k yrow) xq) ks y)"
proof -
  have "interp_poly (self_x self) ks y xq (get_idxl (self_x self) xq)
        = Inr (map2 (\<lambda>k yrow. map (segment_value hermite_value (self_x self) k yrow) xq) ks y)"
    using interp_poly_eq[OF nr sh, of xq] by (simp add: segment_value_poly_hermite)
  then show ?thesis
    using interp_hermite_eq[OF nr sh, of xq] by (simp add: interp_def ks Let_def)
qed

lemma lower_bound_knot:
  assumes "strictly_increasing x" and "i < length x"
  shows "lower_bound x (x ! i) 0 (length x) = i"
proof -
  let ?r = "lower_bound x (x ! i) 0 (length x)"
  have srt: "sorted x" using assms(1) by (rule strictly_increasing_sorted)
  have r1: "?r \<le> length x" using lower_bound_range[of 0 "length x" x "x ! i"] by simp
  have r2: "\<forall>j<?r. x ! j < x ! i"
    using lower_bound_below[of 0 "length x" x "x ! i"] srt by simp
  have r3: "\<forall>j. ?r \<le> j \<and> j < length x \<longrightarrow> x ! i \<le> x ! j"
    using lower_bound_above[of 0 "length x" x "x ! i"] srt by simp
  have "\<not> i < ?r" using r2 by auto
  moreover have "\<not> ?r < i"
  proof
    assume lt: "?r < i"
    then have "x ! ?r < x ! i" using assms by (simp add: strictly_increasing_nth)
    moreover have "x ! i \<le> x ! ?r" using r3 lt assms(2) by simp
    ultimately show False by simp
  qed
  ultimately show ?thesis by simp
qed

lemma hermite_value_left: "hermite_value xl xr yl yr kl kr xl = yl"
  by (simp add: hermite_value_def)

lemma hermite_value_right: "xl \<noteq> xr \<Longrightarrow> hermite_value xl xr yl yr kl kr xr = yr"
  by (simp add: hermite_value_def)

lemma segment_value_knot:
  assumes inc: "strictly_increasing x" and nr: "2 \<le> length x" and i: "i < length x"
  shows "segment_value hermite_value x k y (x ! i) = y ! i"
proof (cases "i = 0")
  case True
  have "lower_bound x (x ! 0) 0 (length x) = 0"
    using lower_bound_knot[OF inc i] True by simp
  then show ?thesis
    using nr True by (simp add: segment_value_def clamp_def hermite_value_left)
next
  case False
  then have c: "clamp (int i) 1 (int (length x) - 1) = int i"
    using i by (simp add: clamp_def)
  have n: "nat (int i - 1) = i - 1" by simp
  have "x ! (i - 1) < x ! i" using False i inc by (simp add: strictly_increasing_nth)
  then show ?thesis
    by (simp add: segment_value_def lower_bound_knot[OF inc i] c n hermite_value_right)
qed

lemma segment_value_knots:
  assumes "strictly_increasing x" and "2 \<le> length x" and "length y = length x"
  shows "map (segment_value hermite_value x k y) x = y"
  using assms by (intro nth_equalityI) (simp_all add: segment_value_knot)

lemma map2_snd: "length ks = length y \<Longrightarrow> map2 (\<lambda>k yrow. yrow) ks y = y"
  by (induction ks y rule: list_induct2) auto

lemma interp_knots:
  assumes inc: "strictly_increasing (self_x self)" and nr: "2 \<le> length (self_x self)"
    and ks: "current_ks self y = Inr ks"
    and sh: "shapes_agree (length (self_x self)) ks y"
  shows "interp self (self_x self) y = Inr y"
proof -
  have "map2 (\<lambda>k yrow. map (segment_value hermite_value (self_x self) k yrow) (self_x self)) ks y
        = map2 (\<lambda>k yrow. yrow) ks y"
    using shapes_agree_zip[OF sh] segment_value_knots[OF inc nr] by (intro map_cong) auto
  also have "\<dots> = y"
    using sh by (intro map2_snd) (simp add: shapes_agree_def)
  finally show ?thesis
    by (simp only: interp_eq[OF nr ks sh])
qed

text \<open>
  Claim C3. \<^verbatim>\<open>_interp\<close> takes the polynomial branch exactly when there are more queries
  than abscissas and the Hermite branch otherwise, for every input; the two branches are
  different computations (on one abscissa with three-entry rows the first raises on the
  sizes, the second on the index). For strictly increasing abscissas with at least two
  entries and rows of the right shape the two branches compute, on the located segments,
  the polynomial (Horner) form with \<open>p0 = y_l\<close>, \<open>p1 = dy + a\<close>, \<open>p2 = b - 2a\<close>,
  \<open>p3 = a - b\<close> and the form in the Hermite basis, and return the same result; the two
  forms have the same value on every segment of nonzero width.
\<close>

theorem C3_formulations_agree:
  "(\<forall>self xq y ks. current_ks self y = Inr ks \<longrightarrow>
      interp self xq y
      = (if length xq > length (self_x self)
         then interp_poly (self_x self) ks y xq (get_idxl (self_x self) xq)
         else interp_hermite (self_x self) ks y xq (get_idxl (self_x self) xq)
                (get_idxr (self_x self) xq)))
   \<and> interp_poly [0] [[1, 2, 3]] [[1, 2, 3]] [5, 6] (get_idxl [0] [5, 6]) = Inl SizeMismatch
   \<and> interp_hermite [0] [[1, 2, 3]] [[1, 2, 3]] [5, 6] (get_idxl [0] [5, 6]) (get_idxr [0] [5, 6])
       = Inl IndexError
   \<and> (\<forall>x ks y xq. strictly_increasing x \<and> 2 \<le> length x \<and> shapes_agree (length x) ks y \<longrightarrow>
          interp_poly x ks y xq (get_idxl x xq)
          = Inr (map2 (\<lambda>k yrow. map (segment_value poly_value x k yrow) xq) ks y)
        \<and> interp_hermite x ks y xq (get_idxl x xq) (get_idxr x xq)
          = Inr (map2 (\<lambda>k yrow. map (segment_value hermite_value x k yrow) xq) ks y)
        \<and> interp_poly x ks y xq (get_idxl x xq)
          = interp_hermite x ks y xq (get_idxl x xq) (get_idxr x xq))
   \<and> (\<forall>xl xr yl yr kl kr q. xl \<noteq> xr \<longrightarrow>
          poly_value xl xr yl yr kl kr q = hermite_value xl xr yl yr kl kr q)"
proof (intro conjI allI impI)
  fix self xq y ks assume "current_ks self y = Inr ks"
  then show "interp self xq y
      = (if length xq > length (self_x self)
         then interp_poly (self_x self) ks y xq (get_idxl (self_x self) xq)
         else interp_hermite (self_x self) ks y xq (get_idxl (self_x self) xq)
                (get_idxr (self_x self) xq))"
    by (simp add: interp_def Let_def)
next
  show "interp_poly [0] [[1, 2, 3]] [[1, 2, 3]] [5, 6] (get_idxl [0] [5, 6]) = Inl SizeMismatch"
    by (simp add: interp_poly_def shapes_agree_def)
next
  show "interp_hermite [0] [[1, 2, 3]] [[1, 2, 3]] [5, 6] (get_idxl [0] [5, 6]) (get_idxr [0] [5, 6])
       = Inl IndexError"
    by code_simp
next
  fix x ks y xq
  assume a: "strictly_increasing x \<and> 2 \<le> length x \<and> shapes_agree (length x) ks y"
  then have nr: "2 \<le> length x" and sh: "shapes_agree (length x) ks y" by simp_all
  show "interp_poly x ks y xq (get_idxl x xq)
          = Inr (map2 (\<lambda>k yrow. map (segment_value poly_value x k yrow) xq) ks y)"
    by (rule interp_poly_eq[OF nr sh])
  show "interp_hermite x ks y xq (get_idxl x xq) (get_idxr x xq)
          = Inr (map2 (\<lambda>k yrow. map (segment_value hermite_value x k yrow) xq) ks y)"
    by (rule interp_hermite_eq[OF nr sh])
  show "interp_poly x ks y xq (get_idxl x xq)
          = interp_hermite x ks y xq (get_idxl x xq) (get_idxr x xq)"
    using interp_poly_eq[OF nr sh, of xq] interp_hermite_eq[OF nr sh, of xq]
    by (simp add: segment_value_poly_hermite)
next
  fix xl xr yl yr kl kr q :: real
  show "poly_value xl xr yl yr kl kr q = hermite_value xl xr yl yr kl kr q"
    by (rule poly_hermite_value)
qed

theorem C3_formulations_agree_witness:
  "(let self = \<lparr> base_y_is_given = True, self_extrap = ExtrapStr ''nan'', self_xmin = 0,
                   self_xmax = 3, is_periodic_required = False, self_x = [0, 1, 2, 3],
                   self_bc_type = ''natural'', self_spline_mat_inv = [], self_y_is_given = True,
                   self_y = Some [[1, 2, 0, 1]], self_ks = Some [[1, 0, - 1, 2]] \<rparr>;
        y = [[1, 2, 0, 1]];
        ks = [[1, 0, - 1, 2]];
        xq = [- 1, 1 / 2, 1, 3 / 2, 5 / 2];
        odd = \<lparr> base_y_is_given = True, self_extrap = ExtrapStr ''nan'', self_xmin = 0,
                  self_xmax = 0, is_periodic_required = False, self_x = [0],
                  self_bc_type = ''natural'', self_spline_mat_inv = [], self_y_is_given = True,
                  self_y = Some [[1, 2, 3]], self_ks = Some [[1, 2, 3]] \<rparr>
    in current_ks self y = Inr ks
       \<and> strictly_increasing (self_x self) \<and> 2 \<le> length (self_x self)
       \<and> shapes_agree (length (self_x self)) ks y
       \<and> (0 :: real) \<noteq> 1
       \<and> length xq > length (self_x self)
       \<and> interp self xq y = Inr [[2, 13 / 8, 2, 9 / 8, 1 / 8]]
       \<and> interp_hermite (self_x self) ks y xq (get_idxl (self_x self) xq) (get_idxr (self_x self) xq)
           = Inr [[2, 13 / 8, 2, 9 / 8, 1 / 8]]
       \<and> poly_value 0 1 1 2 1 0 (1 / 2) = 13 / 8
       \<and> hermite_value 0 1 1 2 1 0 (1 / 2) = 13 / 8
       \<and> current_ks odd [[1, 2, 3]] = Inr [[1, 2, 3]]
       \<and> interp odd [5, 6] [[1, 2, 3]] = Inl SizeMismatch
       \<and> interp odd [5] [[1, 2, 3]] = Inl IndexError)"
proof -
  let ?self = "\<lparr> base_y_is_given = True, self_extrap = ExtrapStr ''nan'', self_xmin = 0,
                   self_xmax = 3, is_periodic_required = False, self_x = [0, 1, 2, 3],
                   self_bc_type = ''natural'', self_spline_mat_inv = [], self_y_is_given = True,
                   self_y = Some [[1, 2, 0, 1]], self_ks = Some [[1, 0, - 1, 2]] \<rparr>"
  let ?odd = "\<lparr> base_y_is_given = True, self_extrap = ExtrapStr ''nan'', self_xmin = 0,
                  self_xmax = 0, is_periodic_required = False, self_x = [0],
                  self_bc_type = ''natural'', self_spline_mat_inv = [], self_y_is_given = True,
                  self_y = Some [[1, 2, 3]], self_ks = Some [[1, 2, 3]] \<rparr>"
  let ?xq = "[- 1, 1 / 2, 1, 3 / 2, 5 / 2] :: real list"
  let ?x = "[0, 1, 2, 3] :: real list"
  let ?ks = "[[1, 0, - 1, 2]] :: real list list" and ?y = "[[1, 2, 0, 1]] :: real list list"
  note T = C3_formulations_agree
  have h1: "current_ks ?self ?y = Inr ?ks" by (simp add: current_ks_def)
  have h2: "strictly_increasing ?x \<and> 2 \<le> length ?x \<and> shapes_agree (length ?x) ?ks ?y"
    by (simp add: strictly_increasing_def shapes_agree_def)
  have h3: "(0 :: real) \<noteq> 1" by simp
  have h4: "current_ks ?odd [[1, 2, 3]] = Inr [[1, 2, 3]]" by (simp add: current_ks_def)
  have v: "interp_poly ?x ?ks ?y ?xq (get_idxl ?x ?xq) = Inr [[2, 13 / 8, 2, 9 / 8, 1 / 8]]"
    by code_simp
  have p: "poly_value 0 1 1 2 1 0 (1 / 2) = 13 / 8" by (simp add: poly_value_def)
  have d: "interp ?self ?xq ?y = interp_poly ?x ?ks ?y ?xq (get_idxl ?x ?xq)"
    using T[THEN conjunct1, rule_format, OF h1, of ?xq] by simp
  have e: "interp_poly ?x ?ks ?y ?xq (get_idxl ?x ?xq)
           = interp_hermite ?x ?ks ?y ?xq (get_idxl ?x ?xq) (get_idxr ?x ?xq)"
    using T[THEN conjunct2, THEN conjunct2, THEN conjunct2, THEN conjunct1, rule_format, OF h2]
    by blast
  have q: "poly_value 0 1 1 2 1 0 (1 / 2) = hermite_value 0 1 1 2 1 0 (1 / 2)"
    using T[THEN conjunct2, THEN conjunct2, THEN conjunct2, THEN conjunct2, rule_format, OF h3] .
  have o1: "interp ?odd [5, 6] [[1, 2, 3]] = Inl SizeMismatch"
    using T[THEN conjunct1, rule_format, OF h4, of "[5, 6]"]
      T[THEN conjunct2, THEN conjunct1] by simp
  have o2: "interp ?odd [5] [[1, 2, 3]]
            = interp_hermite [0] [[1, 2, 3]] [[1, 2, 3]] [5] (get_idxl [0] [5]) (get_idxr [0] [5])"
    using T[THEN conjunct1, rule_format, OF h4, of "[5]"] by simp
  have o3: "interp_hermite [0] [[1, 2, 3]] [[1, 2, 3]] [5] (get_idxl [0] [5]) (get_idxr [0] [5])
            = Inl IndexError"
    by code_simp
  show ?thesis
    unfolding Let_def
    using h1 h2 h3 h4 v p d e q o1 o2 o3 by simp
qed

section \<open>Properties of the spline matrix\<close>

lemma spec_matrix_nth [simp]:
  "i < n \<Longrightarrow> j < n \<Longrightarrow> spec_matrix n f ! i ! j = f i j"
  by (simp add: spec_matrix_def)

lemma spec_matrix_length [simp]: "length (spec_matrix n f) = n"
  by (simp add: spec_matrix_def)

lemma spec_matrix_row_length [simp]: "i < n \<Longrightarrow> length (spec_matrix n f ! i) = n"
  by (simp add: spec_matrix_def)

lemma spec_matrix_cong:
  "(\<And>i j. i < n \<Longrightarrow> j < n \<Longrightarrow> f i j = g i j) \<Longrightarrow> spec_matrix n f = spec_matrix n g"
  by (simp add: spec_matrix_def)

lemma spec_matrixI:
  assumes "length M = n" and "\<And>i. i < n \<Longrightarrow> length (M ! i) = n"
    and "\<And>i j. i < n \<Longrightarrow> j < n \<Longrightarrow> M ! i ! j = f i j"
  shows "M = spec_matrix n f"
proof (rule nth_equalityI)
  show "length M = length (spec_matrix n f)" using assms(1) by simp
  fix i assume "i < length M"
  then have i: "i < n" using assms(1) by simp
  show "M ! i = spec_matrix n f ! i"
    using assms(2)[OF i] assms(3)[OF i] i by (intro nth_equalityI) simp_all
qed

lemma zeros_spec: "zeros n n = spec_matrix n (\<lambda>i j. 0)"
  by (rule spec_matrixI) (simp_all add: zeros_def)

lemma set_diagonal_spec:
  "set_diagonal r0 c0 vs (spec_matrix n f) =
   spec_matrix n (\<lambda>i j. if r0 \<le> i \<and> c0 \<le> j \<and> i - r0 = j - c0 then vs ! (i - r0) else f i j)"
  by (rule spec_matrixI) (simp_all add: set_diagonal_def)

lemma diagonal_assign_spec:
  "length vs = n - (r0 + c0) \<Longrightarrow>
   diagonal_assign r0 c0 vs (spec_matrix n f) =
   Inr (spec_matrix n (\<lambda>i j. if r0 \<le> i \<and> c0 \<le> j \<and> i - r0 = j - c0 then vs ! (i - r0) else f i j))"
  by (simp add: diagonal_assign_def broadcast_to_def set_diagonal_spec)

lemma length_get_dxinv0: "length (get_dxinv0 x) = length x - 1"
  by (simp add: get_dxinv0_def)

lemma get_dxinv0_nth:
  "Suc i < length x \<Longrightarrow> get_dxinv0 x ! i = 1 / (x ! Suc i - x ! i)"
  by (simp add: get_dxinv0_def nth_tl nth_butlast)

lemma length_get_dxinv: "2 \<le> length x \<Longrightarrow> length (get_dxinv x) = length x + 1"
  by (auto simp: get_dxinv_def Let_def length_get_dxinv0 min_def)

lemma get_dxinv_nth:
  assumes "2 \<le> length x" and "i \<le> length x"
  shows "get_dxinv x ! i = spec_dxinv x i"
proof -
  have t: "take (Suc 0) (get_dxinv0 x) = [get_dxinv0 x ! 0]"
    using assms(1) length_get_dxinv0[of x] by (cases "get_dxinv0 x") auto
  have e: "get_dxinv x = 0 # get_dxinv0 x @ [0]"
    by (simp add: get_dxinv_def Let_def t)
  show ?thesis
  proof (cases "i = 0")
    case True
    then show ?thesis by (simp add: e spec_dxinv_def)
  next
    case False
    then obtain i' where i': "i = Suc i'" by (cases i) auto
    show ?thesis
    proof (cases "i = length x")
      case True
      then have "length (get_dxinv0 x) = i'" using i' by (simp add: length_get_dxinv0)
      then have "(get_dxinv0 x @ [0]) ! i' = 0" by (simp add: nth_append)
      then show ?thesis
        using i' True by (simp add: e spec_dxinv_def)
    next
      case False
      then have l: "Suc i' < length x" using assms(2) i' by simp
      then have "i' < length (get_dxinv0 x)" by (simp add: length_get_dxinv0)
      then have "(get_dxinv0 x @ [0]) ! i' = get_dxinv0 x ! i'" by (simp add: nth_append)
      then show ?thesis
        using i' l by (simp add: e spec_dxinv_def get_dxinv0_nth)
    qed
  qed
qed

lemma get_dxinv0_spec:
  "Suc i < length x \<Longrightarrow> get_dxinv0 x ! i = spec_dxinv x (Suc i)"
  by (simp add: get_dxinv0_nth spec_dxinv_def)

lemma tridiag_cases:
  fixes i j :: nat
  shows "(if 1 \<le> i \<and> 0 \<le> j \<and> i - 1 = j - 0 then L
          else if 0 \<le> i \<and> 1 \<le> j \<and> i - 0 = j - 1 then U
          else if 0 \<le> i \<and> 0 \<le> j \<and> i - 0 = j - 0 then D else Z)
         = (if j = i then D else if j = i + 1 then U else if i = j + 1 then L else Z)"
  by auto

lemma get_spline_mat_spec:
  assumes nr: "2 \<le> length x"
  shows "get_spline_mat x = Inr (spec_matrix (length x) (spec_lefthand x ''natural''))"
proof -
  let ?n = "length x"
  let ?dxinv = "get_dxinv x"
  let ?diag = "map (\<lambda>v. v * 2) (map2 (+) (butlast ?dxinv) (tl ?dxinv))"
  have ld: "length ?diag = ?n - (0 + 0)" using nr by (simp add: length_get_dxinv)
  have lo: "length (get_dxinv0 x) = ?n - (0 + 1)" "length (get_dxinv0 x) = ?n - (1 + 0)"
    by (simp_all add: length_get_dxinv0)
  have dn: "\<And>i. i < ?n \<Longrightarrow> ?diag ! i = 2 * (spec_dxinv x i + spec_dxinv x (i + 1))"
    using nr by (simp add: length_get_dxinv nth_butlast nth_tl get_dxinv_nth)
  have "spec_matrix ?n (\<lambda>i j. if 1 \<le> i \<and> 0 \<le> j \<and> i - 1 = j - 0 then get_dxinv0 x ! (i - 1)
          else if 0 \<le> i \<and> 1 \<le> j \<and> i - 0 = j - 1 then get_dxinv0 x ! (i - 0)
          else if 0 \<le> i \<and> 0 \<le> j \<and> i - 0 = j - 0 then ?diag ! (i - 0) else 0)
        = spec_matrix ?n (spec_lefthand x ''natural'')"
  proof (rule spec_matrix_cong)
    fix i j assume ij: "i < ?n" "j < ?n"
    show "(if 1 \<le> i \<and> 0 \<le> j \<and> i - 1 = j - 0 then get_dxinv0 x ! (i - 1)
          else if 0 \<le> i \<and> 1 \<le> j \<and> i - 0 = j - 1 then get_dxinv0 x ! (i - 0)
          else if 0 \<le> i \<and> 0 \<le> j \<and> i - 0 = j - 0 then ?diag ! (i - 0) else 0)
          = spec_lefthand x ''natural'' i j"
      unfolding tridiag_cases
      using ij dn[OF ij(1)] get_dxinv0_spec[of j x] get_dxinv0_spec[of i x]
      by (simp add: spec_lefthand_def)
  qed
  then show ?thesis
    unfolding get_spline_mat_def Let_def zeros_spec
    by (simp only: diagonal_assign_spec[OF ld] diagonal_assign_spec[OF lo(1)]
        diagonal_assign_spec[OF lo(2)] sum.case)
qed


lemma get_matr_spec:
  assumes nr: "2 \<le> length x"
  shows "get_matr x = Inr (spec_matrix (length x) (spec_righthand x ''natural''))"
proof -
  let ?n = "length x"
  let ?dxinv = "get_dxinv x"
  let ?dxinv2 = "map (\<lambda>v. v * 3) (map2 (*) ?dxinv ?dxinv)"
  let ?diagr = "map2 (-) (butlast ?dxinv2) (tl ?dxinv2)"
  let ?udiagr = "butlast (tl ?dxinv2)"
  let ?ldiagr = "map uminus ?udiagr"
  have l2: "length ?dxinv2 = ?n + 1" using nr by (simp add: length_get_dxinv)
  have d2: "\<And>i. i \<le> ?n \<Longrightarrow> ?dxinv2 ! i = 3 * (spec_dxinv x i)\<^sup>2"
    using nr by (simp add: length_get_dxinv get_dxinv_nth power2_eq_square)
  have ld: "length ?diagr = ?n - (0 + 0)" using l2 by simp
  have lu: "length ?udiagr = ?n - (0 + 1)" using l2 by simp
  have ll: "length ?ldiagr = ?n - (1 + 0)" using l2 by simp
  have dn: "\<And>i. i < ?n \<Longrightarrow> ?diagr ! i = 3 * ((spec_dxinv x i)\<^sup>2 - (spec_dxinv x (i + 1))\<^sup>2)"
  proof -
    fix i assume i: "i < ?n"
    have "?diagr ! i = ?dxinv2 ! i - ?dxinv2 ! Suc i"
      using i l2 by (simp add: nth_butlast nth_tl del: length_map)
    then show "?diagr ! i = 3 * ((spec_dxinv x i)\<^sup>2 - (spec_dxinv x (i + 1))\<^sup>2)"
      using i d2[of i] d2[of "Suc i"] by (simp add: algebra_simps)
  qed
  have un: "\<And>i. Suc i < ?n \<Longrightarrow> ?udiagr ! i = 3 * (spec_dxinv x (Suc i))\<^sup>2"
  proof -
    fix i assume i: "Suc i < ?n"
    have "?udiagr ! i = ?dxinv2 ! Suc i"
      using i l2 by (simp add: nth_butlast nth_tl del: length_map)
    then show "?udiagr ! i = 3 * (spec_dxinv x (Suc i))\<^sup>2"
      using i d2[of "Suc i"] by simp
  qed
  have "spec_matrix ?n (\<lambda>i j. if 1 \<le> i \<and> 0 \<le> j \<and> i - 1 = j - 0 then ?ldiagr ! (i - 1)
          else if 0 \<le> i \<and> 1 \<le> j \<and> i - 0 = j - 1 then ?udiagr ! (i - 0)
          else if 0 \<le> i \<and> 0 \<le> j \<and> i - 0 = j - 0 then ?diagr ! (i - 0) else 0)
        = spec_matrix ?n (spec_righthand x ''natural'')"
  proof (rule spec_matrix_cong)
    fix i j assume ij: "i < ?n" "j < ?n"
    have l: "i = Suc j \<Longrightarrow> ?ldiagr ! j = - 3 * (spec_dxinv x i)\<^sup>2"
    proof -
      assume e: "i = Suc j"
      then have "j < length ?udiagr" using ij lu by simp
      then have "?ldiagr ! j = - (?udiagr ! j)" by (rule nth_map)
      then show ?thesis using un[of j] e ij by simp
    qed
    show "(if 1 \<le> i \<and> 0 \<le> j \<and> i - 1 = j - 0 then ?ldiagr ! (i - 1)
          else if 0 \<le> i \<and> 1 \<le> j \<and> i - 0 = j - 1 then ?udiagr ! (i - 0)
          else if 0 \<le> i \<and> 0 \<le> j \<and> i - 0 = j - 0 then ?diagr ! (i - 0) else 0)
          = spec_righthand x ''natural'' i j"
      unfolding tridiag_cases
      using ij dn[OF ij(1)] un[of i] l by (simp add: spec_righthand_def)
  qed
  then show ?thesis
    unfolding get_matr_def Let_def zeros_spec
    by (simp only: diagonal_assign_spec[OF ld] diagonal_assign_spec[OF lu]
        diagonal_assign_spec[OF ll] sum.case)
qed


lemma row_fill_first:
  "0 < n \<Longrightarrow> row_fill 0 c (spec_matrix n f) = Inr (spec_matrix n (\<lambda>i j. if i = 0 then c else f i j))"
  unfolding row_fill_def py_index_def
  by (simp, intro spec_matrixI) (auto simp: nth_list_update)

lemma row_fill_last:
  "0 < n \<Longrightarrow> row_fill (- 1) c (spec_matrix n f) =
     Inr (spec_matrix n (\<lambda>i j. if i = n - 1 then c else f i j))"
  unfolding row_fill_def py_index_def
  by (simp add: nat_diff_distrib', intro spec_matrixI) (auto simp: nth_list_update)

lemma entry_set_first:
  "0 < n \<Longrightarrow> entry_set 0 0 c (spec_matrix n f) =
     Inr (spec_matrix n (\<lambda>i j. if i = 0 \<and> j = 0 then c else f i j))"
  unfolding entry_set_def py_index_def
  by (simp, intro spec_matrixI) (auto simp: nth_list_update)

lemma entry_set_last:
  "0 < n \<Longrightarrow> entry_set (- 1) (- 1) c (spec_matrix n f) =
     Inr (spec_matrix n (\<lambda>i j. if i = n - 1 \<and> j = n - 1 then c else f i j))"
  unfolding entry_set_def py_index_def
  by (simp add: nat_diff_distrib', intro spec_matrixI) (auto simp: nth_list_update)

lemma clamp_spline_mat_spec:
  assumes "2 \<le> length x"
  shows "clamp_spline_mat (spec_matrix (length x) (spec_lefthand x ''natural''))
         = Inr (spec_matrix (length x) (spec_lefthand x ''clamped''))"
proof -
  have n: "0 < length x" using assms by auto
  have "spec_matrix (length x)
          (\<lambda>i j. if i = length x - 1 \<and> j = length x - 1 then 1
                 else if i = length x - 1 then 0
                 else if i = 0 \<and> j = 0 then 1
                 else if i = 0 then 0 else spec_lefthand x ''natural'' i j)
        = spec_matrix (length x) (spec_lefthand x ''clamped'')"
    using assms by (intro spec_matrix_cong) (auto simp: spec_lefthand_def)
  then show ?thesis
    unfolding clamp_spline_mat_def
    by (simp only: row_fill_first[OF n] row_fill_last[OF n] entry_set_first[OF n]
        entry_set_last[OF n] sum.case)
qed

lemma clamp_matr_spec:
  assumes "2 \<le> length x"
  shows "clamp_matr (spec_matrix (length x) (spec_righthand x ''natural''))
         = Inr (spec_matrix (length x) (spec_righthand x ''clamped''))"
proof -
  have n: "0 < length x" using assms by auto
  have "spec_matrix (length x)
          (\<lambda>i j. if i = length x - 1 then 0
                 else if i = 0 then 0 else spec_righthand x ''natural'' i j)
        = spec_matrix (length x) (spec_righthand x ''clamped'')"
    using assms by (intro spec_matrix_cong) (auto simp: spec_righthand_def)
  then show ?thesis
    unfolding clamp_matr_def
    by (simp only: row_fill_first[OF n] row_fill_last[OF n] sum.case)
qed

lemma spec_bc_other:
  "bc \<noteq> ''clamped'' \<Longrightarrow> spec_lefthand x bc = spec_lefthand x ''natural''"
  "bc \<noteq> ''clamped'' \<Longrightarrow> spec_righthand x bc = spec_righthand x ''natural''"
  by (intro ext, simp add: spec_lefthand_def spec_righthand_def)+

lemma spline_system_spec:
  assumes "2 \<le> length x"
  shows "spline_system x bc_type =
         Inr (spec_matrix (length x) (spec_lefthand x bc_type),
              spec_matrix (length x) (spec_righthand x bc_type))"
proof (cases "bc_type = ''clamped''")
  case True
  show ?thesis
    unfolding spline_system_def True
    by (simp only: get_spline_mat_spec[OF assms] get_matr_spec[OF assms]
        clamp_spline_mat_spec[OF assms] clamp_matr_spec[OF assms] sum.case if_True refl)
next
  case False
  then show ?thesis
    unfolding spline_system_def
    by (simp only: get_spline_mat_spec[OF assms] get_matr_spec[OF assms] spec_bc_other[OF False]
        sum.case if_False)
qed

subsection \<open>The solver returns a solution\<close>

lemma dot_eliminate:
  "length u = length v \<Longrightarrow> dot (map2 (\<lambda>a b. a - f * b) u v) xs = dot u xs - f * dot v xs"
proof (induction u v arbitrary: xs rule: list_induct2)
  case Nil
  then show ?case by simp
next
  case (Cons a u b v)
  then show ?case by (cases xs) (simp_all add: algebra_simps)
qed

lemma split_pivot_Some:
  "split_pivot eqs = Some (p, rest) \<Longrightarrow>
   hd (fst p) \<noteq> 0 \<and> set eqs = insert p (set rest) \<and> length eqs = Suc (length rest)"
proof (induction eqs arbitrary: p rest)
  case Nil
  then show ?case by simp
next
  case (Cons e es)
  show ?case
  proof (cases "hd (fst e) \<noteq> 0")
    case True
    with Cons.prems show ?thesis by auto
  next
    case False
    with Cons.prems obtain rest' where r: "split_pivot es = Some (p, rest')" "rest = e # rest'"
      by (auto split: option.splits)
    from Cons.IH[OF r(1)] r(2) show ?thesis by auto
  qed
qed

lemma gauss_sound:
  "gauss n eqs = Some xs \<Longrightarrow> length eqs = n \<Longrightarrow> \<forall>e\<in>set eqs. length (fst e) = n \<Longrightarrow>
   length xs = n \<and> (\<forall>e\<in>set eqs. dot (fst e) xs = snd e)"
proof (induction n arbitrary: eqs xs)
  case 0
  then show ?case by simp
next
  case (Suc n)
  from Suc.prems(1) obtain p rest xs' where
    sp: "split_pivot eqs = Some (p, rest)" and
    g: "gauss n (map (eliminate p) rest) = Some xs'" and
    xs: "xs = (snd p - dot (tl (fst p)) xs') / hd (fst p) # xs'"
    by (auto split: option.splits)
  from split_pivot_Some[OF sp] have
    nz: "hd (fst p) \<noteq> 0" and st: "set eqs = insert p (set rest)" and ln: "length eqs = Suc (length rest)"
    by simp_all
  have lp: "length (fst p) = Suc n" using Suc.prems(3) st by simp
  have lr: "\<forall>e\<in>set rest. length (fst e) = Suc n" using Suc.prems(3) st by simp
  have l1: "length (map (eliminate p) rest) = n" using ln Suc.prems(2) by simp
  have l2: "\<forall>e\<in>set (map (eliminate p) rest). length (fst e) = n"
    using lp lr by (auto simp: eliminate_def Let_def)
  from Suc.IH[OF g l1 l2] have
    lx: "length xs' = n" and sol: "\<forall>e\<in>set (map (eliminate p) rest). dot (fst e) xs' = snd e"
    by simp_all
  define x0 where "x0 = (snd p - dot (tl (fst p)) xs') / hd (fst p)"
  have split: "dot c (x0 # xs') = hd c * x0 + dot (tl c) xs'" if "length c = Suc n" for c
    using that by (cases c) auto
  have pv: "dot (fst p) (x0 # xs') = snd p"
    using split[OF lp] nz by (simp add: x0_def)
  have rs: "\<forall>e\<in>set rest. dot (fst e) (x0 # xs') = snd e"
  proof
    fix e assume e: "e \<in> set rest"
    then have le: "length (fst e) = Suc n" using lr by simp
    define f where "f = hd (fst e) / hd (fst p)"
    have "eliminate p e \<in> set (map (eliminate p) rest)" using e by simp
    then have "dot (fst (eliminate p e)) xs' = snd (eliminate p e)" using sol by blast
    then have "dot (map2 (\<lambda>a b. a - f * b) (tl (fst e)) (tl (fst p))) xs' = snd e - f * snd p"
      by (simp add: eliminate_def Let_def f_def)
    moreover have "length (tl (fst e)) = length (tl (fst p))" using le lp by simp
    ultimately have d: "dot (tl (fst e)) xs' - f * dot (tl (fst p)) xs' = snd e - f * snd p"
      by (simp add: dot_eliminate)
    have fh: "f * hd (fst p) = hd (fst e)" using nz by (simp add: f_def)
    have hx: "hd (fst p) * x0 = snd p - dot (tl (fst p)) xs'" using nz by (simp add: x0_def)
    have "dot (tl (fst e)) xs' = snd e - f * (snd p - dot (tl (fst p)) xs')"
      using d by (simp add: algebra_simps)
    also have "\<dots> = snd e - (f * hd (fst p)) * x0"
      unfolding hx[symmetric] by simp
    finally have "dot (tl (fst e)) xs' = snd e - hd (fst e) * x0"
      unfolding fh .
    then show "dot (fst e) (x0 # xs') = snd e" using split[OF le] by simp
  qed
  show ?case using pv rs lx st by (simp add: xs x0_def)
qed


lemma solve_Inr:
  assumes "solve B A = Inr Z"
  shows "list_all (\<lambda>r. length r = length A) A" and "length B = length A"
    and "list_all (\<lambda>r. length r = ncols B) B"
    and "\<forall>j<ncols B. \<exists>xs. gauss (length A) (zip A (column j B)) = Some xs"
    and "Z = map (\<lambda>i. map (\<lambda>j. the (gauss (length A) (zip A (column j B))) ! i) [0..<ncols B])
                [0..<length A]"
proof -
  let ?sols = "map (\<lambda>j. gauss (length A) (zip A (column j B))) [0..<ncols B]"
  have c: "list_all (\<lambda>r. length r = length A) A \<and> length B = length A
           \<and> list_all (\<lambda>r. length r = ncols B) B"
    using assms by (auto simp: solve_def Let_def split: if_splits)
  then show "list_all (\<lambda>r. length r = length A) A" "length B = length A"
    "list_all (\<lambda>r. length r = ncols B) B" by simp_all
  have a: "list_all (\<lambda>s. s \<noteq> None) ?sols"
    using assms c by (auto simp: solve_def Let_def split: if_splits)
  show "\<forall>j<ncols B. \<exists>xs. gauss (length A) (zip A (column j B)) = Some xs"
    using a by (auto simp: list_all_iff)
  show "Z = map (\<lambda>i. map (\<lambda>j. the (gauss (length A) (zip A (column j B))) ! i) [0..<ncols B])
                [0..<length A]"
    using assms c by (auto simp: solve_def Let_def comp_def split: if_splits)
qed

lemma solve_dims:
  assumes "solve B A = Inr Z"
  shows "length Z = length A" and "\<forall>r\<in>set Z. length r = ncols B"
  using solve_Inr(5)[OF assms] by auto

lemma solve_sound:
  assumes "solve B A = Inr Z"
  shows "mat_mul A Z = B"
proof (cases "A = []")
  case True
  then show ?thesis using solve_Inr(2)[OF assms] by (simp add: mat_mul_def)
next
  case False
  let ?n = "length A" and ?m = "ncols B"
  let ?sol = "\<lambda>j. the (gauss ?n (zip A (column j B)))"
  note Z = solve_Inr(5)[OF assms]
  have sq: "\<forall>r\<in>set A. length r = ?n" using solve_Inr(1)[OF assms] by (simp add: list_all_iff)
  have lb: "length B = ?n" by (rule solve_Inr(2)[OF assms])
  have rb: "\<forall>r\<in>set B. length r = ?m" using solve_Inr(3)[OF assms] by (simp add: list_all_iff)
  have n0: "0 < ?n" using False by simp
  have nz: "ncols Z = ?m"
  proof -
    have "Z = map (\<lambda>j. ?sol j ! 0) [0..<?m] # map (\<lambda>i. map (\<lambda>j. ?sol j ! i) [0..<?m]) [Suc 0..<?n]"
      using n0 by (subst Z) (simp add: upt_conv_Cons)
    then show ?thesis by (metis (no_types, lifting) ncols_def list.simps(5) length_map length_upt diff_zero)
  qed
  have sol: "length (?sol j) = ?n \<and> (\<forall>i<?n. dot (A ! i) (?sol j) = B ! i ! j)" if j: "j < ?m" for j
  proof -
    from solve_Inr(4)[OF assms] j obtain xs where g: "gauss ?n (zip A (column j B)) = Some xs"
      by blast
    have l: "length (zip A (column j B)) = ?n" using lb by (simp add: column_def)
    have c: "\<forall>e\<in>set (zip A (column j B)). length (fst e) = ?n"
      using sq by (auto dest: set_zip_leftD)
    from gauss_sound[OF g l c] have
      lx: "length xs = ?n" and s: "\<forall>e\<in>set (zip A (column j B)). dot (fst e) xs = snd e"
      by simp_all
    have "\<forall>i<?n. dot (A ! i) xs = B ! i ! j"
    proof (intro allI impI)
      fix i assume i: "i < ?n"
      then have "(A ! i, column j B ! i) \<in> set (zip A (column j B))"
        using lb by (auto simp: set_zip column_def)
      then have "dot (A ! i) xs = column j B ! i" using s by fastforce
      then show "dot (A ! i) xs = B ! i ! j" using i lb by (simp add: column_def)
    qed
    then show ?thesis using g lx by simp
  qed
  have col: "column j Z = ?sol j" if j: "j < ?m" for j
  proof (rule nth_equalityI)
    show "length (column j Z) = length (?sol j)"
      using sol[OF j] by (subst Z) (simp add: column_def)
    fix i assume "i < length (column j Z)"
    then have i: "i < ?n" by (subst (asm) Z) (simp add: column_def)
    show "column j Z ! i = ?sol j ! i"
      using i j by (subst Z) (simp add: column_def)
  qed
  show ?thesis
  proof (rule nth_equalityI)
    show "length (mat_mul A Z) = length B" using lb by (simp add: mat_mul_def)
    fix i assume "i < length (mat_mul A Z)"
    then have i: "i < ?n" by (simp add: mat_mul_def)
    have li: "length (B ! i) = ?m" using rb i lb by simp
    show "mat_mul A Z ! i = B ! i"
    proof (rule nth_equalityI)
      show "length (mat_mul A Z ! i) = length (B ! i)"
        using i li by (simp add: mat_mul_def nz)
      fix j assume "j < length (mat_mul A Z ! i)"
      then have j: "j < ?m" using i by (simp add: mat_mul_def nz)
      show "mat_mul A Z ! i ! j = B ! i ! j"
        using i j sol[OF j] by (simp add: mat_mul_def nz col[OF j])
    qed
  qed
qed

lemma dot_sum:
  "length a = length b \<Longrightarrow> dot a b = (\<Sum>j<length a. a ! j * b ! j)"
proof (induction a b rule: list_induct2)
  case Nil
  then show ?case by simp
next
  case (Cons x xs y ys)
  have "(\<Sum>j<Suc (length xs). (x # xs) ! j * (y # ys) ! j)
        = x * y + (\<Sum>j<length xs. xs ! j * ys ! j)"
    by (subst sum.lessThan_Suc_shift) simp
  then show ?case using Cons by simp
qed

lemma dot_unit:
  assumes "length a = length b" and "i < length a"
    and "\<forall>j<length a. a ! j = (if j = i then 1 else 0)"
  shows "dot a b = b ! i"
proof -
  have "dot a b = (\<Sum>j<length a. (if j = i then b ! j else 0))"
    unfolding dot_sum[OF assms(1)] using assms(3) by (intro sum.cong) auto
  also have "\<dots> = b ! i" using assms(2) by simp
  finally show ?thesis .
qed

lemma dot_zero:
  assumes "\<forall>j<length a. a ! j = 0"
  shows "dot a b = 0"
  using assms
proof (induction a b rule: dot.induct)
  case (1 a as b bs)
  then have "a = 0" "\<forall>j<length as. as ! j = 0" by auto
  with 1 show ?case by simp
qed simp_all

lemma ncols_spec_matrix: "0 < n \<Longrightarrow> ncols (spec_matrix n f) = n"
  by (simp add: ncols_def spec_matrix_def upt_conv_Cons)

lemma get_spline_mat_inv_facts:
  assumes nr: "2 \<le> length x" and Z: "get_spline_mat_inv x bc_type = Inr Z"
  shows "mat_mul (spec_matrix (length x) (spec_lefthand x bc_type)) Z
         = spec_matrix (length x) (spec_righthand x bc_type)"
    and "length Z = length x" and "\<forall>r\<in>set Z. length r = length x"
proof -
  have s: "solve (spec_matrix (length x) (spec_righthand x bc_type))
                 (spec_matrix (length x) (spec_lefthand x bc_type)) = Inr Z"
    using Z by (simp add: get_spline_mat_inv_def spline_system_spec[OF nr])
  have n: "0 < length x" using nr by auto
  show "mat_mul (spec_matrix (length x) (spec_lefthand x bc_type)) Z
         = spec_matrix (length x) (spec_righthand x bc_type)"
    by (rule solve_sound[OF s])
  show "length Z = length x" using solve_dims(1)[OF s] by simp
  show "\<forall>r\<in>set Z. length r = length x"
    using solve_dims(2)[OF s] by (simp add: ncols_spec_matrix[OF n])
qed

lemma get_ks_facts:
  assumes "get_ks Z y = Inr ks" and "Z \<noteq> []" and "\<forall>r\<in>set Z. length r = n" and "length Z = n"
  shows "ks = map (matvec Z) y" and "shapes_agree n ks y"
proof -
  have c: "list_all (\<lambda>r. list_all (\<lambda>z. length z = length r) Z) y"
    using assms(1) by (auto simp: get_ks_def split: if_splits)
  show k: "ks = map (matvec Z) y"
    using assms(1) by (auto simp: get_ks_def split: if_splits)
  obtain z where z: "z \<in> set Z" using assms(2) by (cases Z) auto
  have "\<forall>r\<in>set y. length r = n"
  proof
    fix r assume "r \<in> set y"
    then have "length z = length r" using c z by (auto simp: list_all_iff)
    then show "length r = n" using assms(3) z by simp
  qed
  then show "shapes_agree n ks y"
    using assms(4) by (simp add: shapes_agree_def k list_all_iff matvec_def)
qed

lemma matvec_sum:
  assumes "\<forall>r\<in>set Z. length r = n" and "length v = n" and "length Z = n"
  shows "matvec Z v = map (\<lambda>i. \<Sum>j<n. v ! j * Z ! i ! j) [0..<n]"
proof (rule nth_equalityI)
  show "length (matvec Z v) = length (map (\<lambda>i. \<Sum>j<n. v ! j * Z ! i ! j) [0..<n])"
    using assms(3) by (simp add: matvec_def)
  fix i assume "i < length (matvec Z v)"
  then have i: "i < n" using assms(3) by (simp add: matvec_def)
  then have l: "length (Z ! i) = length v" using assms by simp
  show "matvec Z v ! i = map (\<lambda>i. \<Sum>j<n. v ! j * Z ! i ! j) [0..<n] ! i"
    using i assms(3) l assms(2) by (simp add: matvec_def dot_sum mult.commute)
qed

subsection \<open>The solver succeeds on the spline matrix\<close>

lemma sum_except_Suc:
  "(\<Sum>j\<in>{..<Suc m} - {Suc i}. g j) = g 0 + (\<Sum>j\<in>{..<m} - {i}. g (Suc j))"
proof -
  have s: "{..<Suc m} - {Suc i} = insert 0 (Suc ` ({..<m} - {i}))"
  proof (intro set_eqI iffI)
    fix j assume "j \<in> {..<Suc m} - {Suc i}"
    then show "j \<in> insert 0 (Suc ` ({..<m} - {i}))" by (cases j) auto
  next
    fix j assume "j \<in> insert 0 (Suc ` ({..<m} - {i}))"
    then show "j \<in> {..<Suc m} - {Suc i}" by auto
  qed
  have "(\<Sum>j\<in>insert 0 (Suc ` ({..<m} - {i})). g j) = g 0 + (\<Sum>j\<in>Suc ` ({..<m} - {i}). g j)"
    by (rule sum.insert) auto
  also have "(\<Sum>j\<in>Suc ` ({..<m} - {i}). g j) = (\<Sum>j\<in>{..<m} - {i}. g (Suc j))"
    by (simp add: sum.reindex)
  finally show ?thesis unfolding s .
qed

lemma sum_except_0:
  "(\<Sum>j\<in>{..<Suc m} - {0}. g j) = (\<Sum>j\<in>{..<m}. g (Suc j))"
proof -
  have s: "{..<Suc m} - {0} = Suc ` {..<m}"
  proof (intro set_eqI iffI)
    fix j assume "j \<in> {..<Suc m} - {0}"
    then show "j \<in> Suc ` {..<m}" by (cases j) auto
  next
    fix j assume "j \<in> Suc ` {..<m}"
    then show "j \<in> {..<Suc m} - {0}" by auto
  qed
  show ?thesis unfolding s by (simp add: sum.reindex)
qed

lemma eliminate_dominant:
  assumes lp: "length p = Suc m" and la: "length a = Suc m"
    and dp: "diag_dominant p 0" and da: "diag_dominant a (Suc i)" and i: "i < m"
  shows "diag_dominant (map2 (\<lambda>u v. u - (hd a / hd p) * v) (tl a) (tl p)) i"
proof -
  define f where "f = hd a / hd p"
  let ?a' = "map2 (\<lambda>u v. u - f * v) (tl a) (tl p)"
  have l: "length ?a' = m" using lp la by simp
  have n: "?a' ! j = a ! Suc j - f * p ! Suc j" if "j < m" for j
    using that lp la by (simp add: nth_tl)
  have "a \<noteq> []" "p \<noteq> []" using lp la by auto
  then have h: "hd a = a ! 0" "hd p = p ! 0" by (simp_all add: hd_conv_nth)
  define A1 where "A1 = (\<Sum>j\<in>{..<m} - {i}. \<bar>a ! Suc j\<bar>)"
  define P1 where "P1 = (\<Sum>j\<in>{..<m} - {i}. \<bar>p ! Suc j\<bar>)"
  have a: "\<bar>a ! 0\<bar> + A1 < \<bar>a ! Suc i\<bar>"
    using da unfolding diag_dominant_def la sum_except_Suc A1_def .
  have "(\<Sum>j\<in>{..<m}. \<bar>p ! Suc j\<bar>) = \<bar>p ! Suc i\<bar> + P1"
    unfolding P1_def using i by (intro sum.remove) auto
  then have p: "\<bar>p ! Suc i\<bar> + P1 < \<bar>p ! 0\<bar>"
    using dp unfolding diag_dominant_def lp sum_except_0 by simp
  have P0: "0 \<le> P1" unfolding P1_def by (intro sum_nonneg) simp
  then have p0: "p ! 0 \<noteq> 0" using p by auto
  have fp: "\<bar>f\<bar> * \<bar>p ! 0\<bar> = \<bar>a ! 0\<bar>"
    using p0 by (simp add: f_def h abs_divide)
  have "\<bar>f\<bar> * (\<bar>p ! Suc i\<bar> + P1) \<le> \<bar>f\<bar> * \<bar>p ! 0\<bar>"
    using p by (intro mult_left_mono) auto
  then have b: "\<bar>f\<bar> * \<bar>p ! Suc i\<bar> + \<bar>f\<bar> * P1 \<le> \<bar>a ! 0\<bar>"
    unfolding fp by (simp add: algebra_simps)
  have "(\<Sum>j\<in>{..<m} - {i}. \<bar>?a' ! j\<bar>) \<le> (\<Sum>j\<in>{..<m} - {i}. \<bar>a ! Suc j\<bar> + \<bar>f\<bar> * \<bar>p ! Suc j\<bar>)"
  proof (rule sum_mono)
    fix j assume "j \<in> {..<m} - {i}"
    then have "j < m" by simp
    have "\<bar>a ! Suc j - f * p ! Suc j\<bar> \<le> \<bar>a ! Suc j\<bar> + \<bar>f * p ! Suc j\<bar>"
      by (rule abs_triangle_ineq4)
    then show "\<bar>?a' ! j\<bar> \<le> \<bar>a ! Suc j\<bar> + \<bar>f\<bar> * \<bar>p ! Suc j\<bar>"
      using n[OF \<open>j < m\<close>] by (simp add: abs_mult)
  qed
  also have "\<dots> = A1 + \<bar>f\<bar> * P1"
    unfolding A1_def P1_def by (simp add: sum.distrib sum_distrib_left)
  finally have s: "(\<Sum>j\<in>{..<m} - {i}. \<bar>?a' ! j\<bar>) \<le> A1 + \<bar>f\<bar> * P1" .
  have "\<bar>a ! Suc i\<bar> - \<bar>f * p ! Suc i\<bar> \<le> \<bar>a ! Suc i - f * p ! Suc i\<bar>"
    by (rule abs_triangle_ineq2)
  then have d: "\<bar>a ! Suc i\<bar> - \<bar>f\<bar> * \<bar>p ! Suc i\<bar> \<le> \<bar>?a' ! i\<bar>"
    using n[OF i] by (simp add: abs_mult)
  have "(\<Sum>j\<in>{..<m} - {i}. \<bar>?a' ! j\<bar>) < \<bar>?a' ! i\<bar>"
    using s d a b by linarith
  then show ?thesis using l by (simp add: diag_dominant_def f_def)
qed

lemma gauss_dominant:
  "length eqs = n \<Longrightarrow>
   \<forall>i<n. length (fst (eqs ! i)) = n \<and> diag_dominant (fst (eqs ! i)) i \<Longrightarrow>
   \<exists>xs. gauss n eqs = Some xs"
proof (induction n arbitrary: eqs)
  case 0
  then show ?case by simp
next
  case (Suc m)
  then obtain p rest where e: "eqs = p # rest" "length rest = m" by (cases eqs) auto
  have lp: "length (fst p) = Suc m" and dp: "diag_dominant (fst p) 0"
    using Suc.prems(2) e by auto
  have "0 \<le> (\<Sum>j\<in>{..<length (fst p)} - {0}. \<bar>fst p ! j\<bar>)" by (intro sum_nonneg) simp
  then have "0 < \<bar>fst p ! 0\<bar>" using dp unfolding diag_dominant_def by linarith
  then have "fst p ! 0 \<noteq> 0" by simp
  moreover have "fst p \<noteq> []" using lp by auto
  ultimately have "hd (fst p) \<noteq> 0" by (simp add: hd_conv_nth)
  then have sp: "split_pivot eqs = Some (p, rest)" by (simp add: e)
  have "\<forall>i<m. length (fst (map (eliminate p) rest ! i)) = m
              \<and> diag_dominant (fst (map (eliminate p) rest ! i)) i"
  proof (intro allI impI)
    fix i assume i: "i < m"
    let ?a = "fst (rest ! i)"
    have la: "length ?a = Suc m" and da: "diag_dominant ?a (Suc i)"
      using Suc.prems(2) e i by (auto dest: spec[of _ "Suc i"])
    have f: "fst (map (eliminate p) rest ! i)
             = map2 (\<lambda>u v. u - (hd ?a / hd (fst p)) * v) (tl ?a) (tl (fst p))"
      using i e by (simp add: eliminate_def Let_def)
    show "length (fst (map (eliminate p) rest ! i)) = m
          \<and> diag_dominant (fst (map (eliminate p) rest ! i)) i"
      unfolding f using eliminate_dominant[OF lp la dp da i] lp la by simp
  qed
  from Suc.IH[OF _ this] e obtain xs where "gauss m (map (eliminate p) rest) = Some xs" by auto
  then show ?case by (simp add: sp)
qed

lemma solve_exists:
  assumes A: "\<forall>i<length A. length (A ! i) = length A \<and> diag_dominant (A ! i) i"
    and B: "length B = length A" "list_all (\<lambda>r. length r = ncols B) B"
  shows "\<exists>Z. solve B A = Inr Z"
proof -
  let ?n = "length A"
  have sq: "list_all (\<lambda>r. length r = ?n) A"
    using A by (auto simp: list_all_length)
  have "gauss ?n (zip A (column j B)) \<noteq> None" for j
  proof -
    have l: "length (zip A (column j B)) = ?n" using B(1) by (simp add: column_def)
    have "\<forall>i<?n. length (fst (zip A (column j B) ! i)) = ?n
                 \<and> diag_dominant (fst (zip A (column j B) ! i)) i"
      using A B(1) by (simp add: column_def)
    from gauss_dominant[OF l this] show ?thesis by auto
  qed
  then have "list_all (\<lambda>s. s \<noteq> None) (map (\<lambda>j. gauss ?n (zip A (column j B))) [0..<ncols B])"
    by (simp add: list_all_iff)
  then show ?thesis using sq B by (simp add: solve_def Let_def)
qed

lemma spec_dxinv_nonneg: "strictly_increasing x \<Longrightarrow> 0 \<le> spec_dxinv x i"
proof -
  assume inc: "strictly_increasing x"
  show ?thesis
  proof (cases "i = 0 \<or> length x \<le> i")
    case True
    then show ?thesis by (auto simp: spec_dxinv_def)
  next
    case False
    then have "x ! (i - 1) < x ! i" using inc by (intro strictly_increasing_nth) auto
    then show ?thesis using False by (simp add: spec_dxinv_def)
  qed
qed

lemma spec_dxinv_pos: "strictly_increasing x \<Longrightarrow> 0 < i \<Longrightarrow> i < length x \<Longrightarrow> 0 < spec_dxinv x i"
proof -
  assume inc: "strictly_increasing x" and i: "0 < i" "i < length x"
  then have "x ! (i - 1) < x ! i" by (intro strictly_increasing_nth) auto
  then show ?thesis using i by (simp add: spec_dxinv_def)
qed

lemma lefthand_dominant:
  assumes inc: "strictly_increasing x" and nr: "2 \<le> length x" and i: "i < length x"
  shows "diag_dominant (spec_matrix (length x) (spec_lefthand x bc) ! i) i"
proof -
  let ?n = "length x"
  let ?L = "spec_lefthand x bc"
  let ?S = "{..<?n} - {i}"
  have row: "(\<Sum>j\<in>{..<length (spec_matrix ?n ?L ! i)} - {i}. \<bar>spec_matrix ?n ?L ! i ! j\<bar>)
             = (\<Sum>j\<in>?S. \<bar>?L i j\<bar>)"
    using i by (intro sum.cong) simp_all
  have d: "\<bar>spec_matrix ?n ?L ! i ! i\<bar> = \<bar>?L i i\<bar>" using i by simp
  have "(\<Sum>j\<in>?S. \<bar>?L i j\<bar>) < \<bar>?L i i\<bar>"
  proof (cases "bc = ''clamped'' \<and> (i = 0 \<or> i = ?n - 1)")
    case True
    then have "(\<Sum>j\<in>?S. \<bar>?L i j\<bar>) = (\<Sum>j\<in>?S. 0)"
      by (intro sum.cong) (auto simp: spec_lefthand_def)
    then show ?thesis using True by (simp add: spec_lefthand_def)
  next
    case False
    let ?d = "spec_dxinv x"
    have nn: "0 \<le> ?d i" "0 \<le> ?d (i + 1)" using spec_dxinv_nonneg[OF inc] by simp_all
    have "(\<Sum>j\<in>?S. \<bar>?L i j\<bar>)
          = (\<Sum>j\<in>?S. (if j = i + 1 then ?d (i + 1) else 0) + (if j = i - 1 then ?d i else 0))"
    proof (rule sum.cong)
      fix j assume "j \<in> ?S"
      then have j: "j \<noteq> i" by simp
      show "\<bar>?L i j\<bar> = (if j = i + 1 then ?d (i + 1) else 0) + (if j = i - 1 then ?d i else 0)"
        using j False nn by (auto simp: spec_lefthand_def)
    qed simp
    also have "\<dots> = (\<Sum>j\<in>?S. if j = i + 1 then ?d (i + 1) else 0)
                     + (\<Sum>j\<in>?S. if j = i - 1 then ?d i else 0)"
      by (rule sum.distrib)
    also have "\<dots> \<le> ?d (i + 1) + ?d i"
      using nn by (intro add_mono) (simp_all add: sum.delta)
    finally have s0: "(\<Sum>j\<in>?S. \<bar>?L i j\<bar>) \<le> ?d (i + 1) + ?d i" .
    define T where "T = (\<Sum>j\<in>?S. \<bar>?L i j\<bar>)"
    define D where "D = \<bar>?L i i\<bar>"
    have s: "T \<le> ?d (i + 1) + ?d i" using s0 by (simp add: T_def)
    have "0 < ?d i + ?d (i + 1)"
    proof (cases "i = 0")
      case True
      then have "0 < ?d (i + 1)" using spec_dxinv_pos[OF inc, of 1] nr by simp
      then show ?thesis using nn by linarith
    next
      case False
      then have "0 < ?d i" using spec_dxinv_pos[OF inc, of i] i by simp
      then show ?thesis using nn by linarith
    qed
    moreover have "D = 2 * (?d i + ?d (i + 1))"
      unfolding D_def using False nn by (auto simp: spec_lefthand_def)
    ultimately have "T < D" using s by argo
    then show ?thesis unfolding T_def D_def .
  qed
  then show ?thesis unfolding diag_dominant_def row d .
qed

lemma get_spline_mat_inv_exists:
  assumes inc: "strictly_increasing x" and nr: "2 \<le> length x"
  shows "\<exists>Z. get_spline_mat_inv x bc = Inr Z"
proof -
  let ?n = "length x"
  let ?L = "spec_matrix ?n (spec_lefthand x bc)" and ?R = "spec_matrix ?n (spec_righthand x bc)"
  have n: "0 < ?n" using nr by auto
  have A: "\<forall>i<length ?L. length (?L ! i) = length ?L \<and> diag_dominant (?L ! i) i"
    using lefthand_dominant[OF inc nr] by simp
  have B: "length ?R = length ?L" "list_all (\<lambda>r. length r = ncols ?R) ?R"
    by (simp_all add: ncols_spec_matrix[OF n] list_all_length)
  from solve_exists[OF A B] show ?thesis
    by (simp add: get_spline_mat_inv_def spline_system_spec[OF nr])
qed

section \<open>Properties of constructed interpolants\<close>

lemma construct_Inr:
  assumes "CubicSpline1D_init xt y0 bc_arg extrap_arg = Inr self"
  shows "check_and_get_extrap extrap_arg (bc_of bc_arg) = Inr (self_extrap self)"
    and "length (shape xt) = 1" and "last (shape xt) \<noteq> 0"
    and "bc_of bc_arg = ''natural'' \<or> bc_of bc_arg = ''clamped''"
    and "self_x self = entries xt"
    and "self_xmin self = tmin (entries xt)" and "self_xmax self = tmax (entries xt)"
    and "is_periodic_required self = is_mode (self_extrap self) ''periodic''"
    and "get_spline_mat_inv (entries xt) (bc_of bc_arg) = Inr (self_spline_mat_inv self)"
    and "base_y_is_given self = (y0 \<noteq> None)" and "self_y_is_given self = (y0 \<noteq> None)"
    and "self_y self = y0"
    and "y0 = None \<Longrightarrow> self_ks self = None"
    and "\<And>yv. y0 = Some yv \<Longrightarrow>
           (\<exists>k. get_ks (self_spline_mat_inv self) yv = Inr k \<and> self_ks self = Some k)
           \<and> (is_periodic_required self \<longrightarrow> check_periodic_value yv = Inr ())"
  using assms
  unfolding CubicSpline1D_init_def Let_def
  by (auto split: sum.splits option.splits if_splits)


lemma get_spline_mat_inv_singleton: "length x = 1 \<Longrightarrow> get_spline_mat_inv x bc = Inl SizeMismatch"
proof -
  assume "length x = 1"
  then obtain a where x: "x = [a]" by (cases x) auto
  have "get_spline_mat [a] = Inl SizeMismatch"
    by (simp add: get_spline_mat_def get_dxinv_def get_dxinv0_def diagonal_assign_def
        broadcast_to_def zeros_def)
  then show ?thesis by (simp add: x get_spline_mat_inv_def spline_system_def)
qed

lemma constructed_nr:
  assumes "CubicSpline1D_init (Tensor [length x] x) y0 bc_arg extrap_arg = Inr self"
  shows "self_x self = x" and "2 \<le> length x"
proof -
  show "self_x self = x" using construct_Inr(5)[OF assms] by simp
  have "length x \<noteq> 0" using construct_Inr(3)[OF assms] by simp
  moreover have "length x \<noteq> 1"
    using construct_Inr(9)[OF assms] get_spline_mat_inv_singleton[of x] by auto
  ultimately show "2 \<le> length x" by linarith
qed

lemma constructed_Z:
  assumes "CubicSpline1D_init (Tensor [length x] x) y0 bc_arg extrap_arg = Inr self"
  shows "self_spline_mat_inv self \<noteq> []" and "length (self_spline_mat_inv self) = length x"
    and "\<forall>r\<in>set (self_spline_mat_inv self). length r = length x"
proof -
  have Z: "get_spline_mat_inv x (bc_of bc_arg) = Inr (self_spline_mat_inv self)"
    using construct_Inr(9)[OF assms] by simp
  note nr = constructed_nr(2)[OF assms]
  show "length (self_spline_mat_inv self) = length x"
    and "\<forall>r\<in>set (self_spline_mat_inv self). length r = length x"
    using get_spline_mat_inv_facts(2,3)[OF nr Z] by simp_all
  then show "self_spline_mat_inv self \<noteq> []" using nr by auto
qed

text \<open>
  The slope coefficients of a constructed interpolant, for the ordinates \<open>y\<close> in effect:
  the ones bound at construction, or else ordinates of the right shape given at the call.
\<close>

lemma constructed_ks:
  assumes c: "CubicSpline1D_init (Tensor [length x] x) y0 bc_arg extrap_arg = Inr self"
    and y: "y0 = Some y \<or> (y0 = None \<and> list_all (\<lambda>r. length r = length x) y)"
  shows "current_ks self y = Inr (map (matvec (self_spline_mat_inv self)) y)"
    and "shapes_agree (length x) (map (matvec (self_spline_mat_inv self)) y) y"
proof -
  let ?Z = "self_spline_mat_inv self"
  note Z = constructed_Z[OF c]
  have g: "get_ks ?Z y = Inr (map (matvec ?Z) y)"
  proof (cases y0)
    case None
    then have "list_all (\<lambda>r. length r = length x) y" using y by simp
    then have "list_all (\<lambda>r. list_all (\<lambda>z. length z = length r) ?Z) y"
      using Z(3) by (simp add: list_all_iff)
    then show ?thesis by (simp add: get_ks_def)
  next
    case (Some yv)
    then have yv: "yv = y" using y by simp
    from construct_Inr(14)[OF c Some] obtain k where "get_ks ?Z y = Inr k"
      unfolding yv by blast
    then show ?thesis using get_ks_facts(1)[of ?Z y k "length x"] Z by simp
  qed
  show "shapes_agree (length x) (map (matvec ?Z) y) y"
    using get_ks_facts(2)[OF g Z(1,3,2)] .
  show "current_ks self y = Inr (map (matvec ?Z) y)"
  proof (cases y0)
    case None
    then show ?thesis using construct_Inr(11)[OF c] g by (simp add: current_ks_def)
  next
    case (Some yv)
    then have yv: "yv = y" using y by simp
    from construct_Inr(14)[OF c Some] obtain k where
      k: "get_ks ?Z y = Inr k" "self_ks self = Some k"
      unfolding yv by blast
    then show ?thesis using construct_Inr(11)[OF c] Some g by (simp add: current_ks_def)
  qed
qed

lemma tmin_tmax:
  assumes "v \<in> set x"
  shows "tmin x \<le> v" and "v \<le> tmax x"
proof -
  obtain a as where x: "x = a # as" using assms by (cases x) auto
  have "tmin x = Min (set x)" unfolding x tmin_def using Min.set_eq_fold[of a as] by simp
  then show "tmin x \<le> v" using assms by simp
  have "tmax x = Max (set x)" unfolding x tmax_def using Max.set_eq_fold[of a as] by simp
  then show "v \<le> tmax x" using assms by simp
qed

lemma tmin_tmax_sorted:
  assumes "strictly_increasing x" and "x \<noteq> []"
  shows "tmin x = x ! 0" and "tmax x = x ! (length x - 1)"
proof -
  obtain a as where x: "x = a # as" using assms(2) by (cases x) auto
  have s: "sorted x" using assms(1) by (rule strictly_increasing_sorted)
  have "tmin x = Min (set x)" unfolding x tmin_def using Min.set_eq_fold[of a as] by simp
  also have "\<dots> = x ! 0"
  proof (rule Min_eqI)
    show "finite (set x)" by simp
    show "x ! 0 \<in> set x" using assms(2) by simp
    fix v assume "v \<in> set x"
    then obtain i where "i < length x" "x ! i = v" by (auto simp: in_set_conv_nth)
    then show "x ! 0 \<le> v" using s sorted_nth_mono[of x 0 i] by auto
  qed
  finally show "tmin x = x ! 0" .
  have "tmax x = Max (set x)" unfolding x tmax_def using Max.set_eq_fold[of a as] by simp
  also have "\<dots> = x ! (length x - 1)"
  proof (rule Max_eqI)
    show "finite (set x)" by simp
    show "x ! (length x - 1) \<in> set x" using assms(2) by simp
    fix v assume "v \<in> set x"
    then obtain i where "i < length x" "x ! i = v" by (auto simp: in_set_conv_nth)
    then show "v \<le> x ! (length x - 1)" using s sorted_nth_mono[of x i "length x - 1"] by auto
  qed
  finally show "tmax x = x ! (length x - 1)" .
qed

text \<open>
  Claim C2. For strictly increasing abscissas \<open>x\<close> with at least two entries: the padded
  inverse spacings of the source are \<open>spec_dxinv\<close>; the two matrices handed to the solver are
  the left-hand and right-hand matrices of the specification (tridiagonal, with the first
  and last rows replaced for \<^verbatim>\<open>"clamped"\<close>); the solver returns a matrix \<open>Z\<close> of size
  \<open>nr \<times> nr\<close> with \<open>LeftHand * Z = RightHand\<close>; and for every ordinate tensor of shape
  \<open>(*B, nr)\<close> the slope coefficients are produced and are \<open>k = y * Z\<^sup>T\<close>, that is
  \<open>k[i] = \<Sum>j. y[j] * Z[i][j]\<close> on every row.
\<close>

theorem C2_spline_linear_map:
  assumes "strictly_increasing x" and "2 \<le> length x"
  shows "(\<forall>i\<le>length x. get_dxinv x ! i = spec_dxinv x i)
       \<and> spline_system x bc_type
           = Inr (spec_matrix (length x) (spec_lefthand x bc_type),
                  spec_matrix (length x) (spec_righthand x bc_type))
       \<and> (\<exists>Z. get_spline_mat_inv x bc_type = Inr Z
              \<and> length Z = length x \<and> (\<forall>r\<in>set Z. length r = length x)
              \<and> mat_mul (spec_matrix (length x) (spec_lefthand x bc_type)) Z
                  = spec_matrix (length x) (spec_righthand x bc_type)
              \<and> (\<forall>y. list_all (\<lambda>r. length r = length x) y \<longrightarrow>
                    get_ks Z y
                    = Inr (map (\<lambda>row. map (\<lambda>i. \<Sum>j<length x. row ! j * Z ! i ! j) [0..<length x]) y)))"
proof -
  from get_spline_mat_inv_exists[OF assms] obtain Z where
    Z: "get_spline_mat_inv x bc_type = Inr Z" by blast
  note f = get_spline_mat_inv_facts[OF assms(2) Z]
  have "get_ks Z y = Inr (map (\<lambda>row. map (\<lambda>i. \<Sum>j<length x. row ! j * Z ! i ! j) [0..<length x]) y)"
    if y: "list_all (\<lambda>r. length r = length x) y" for y
  proof -
    have "list_all (\<lambda>r. list_all (\<lambda>z. length z = length r) Z) y"
      using y f(3) by (simp add: list_all_iff)
    then have g: "get_ks Z y = Inr (map (matvec Z) y)" by (simp add: get_ks_def)
    have "map (matvec Z) y
          = map (\<lambda>row. map (\<lambda>i. \<Sum>j<length x. row ! j * Z ! i ! j) [0..<length x]) y"
      using y matvec_sum[OF f(3) _ f(2)] by (intro map_cong) (auto simp: list_all_iff)
    then show ?thesis using g by simp
  qed
  then show ?thesis
    using get_dxinv_nth[OF assms(2)] spline_system_spec[OF assms(2)] Z f by blast
qed

theorem C2_spline_linear_map_witness:
  "strictly_increasing [0, 1, 2, 4] \<and> 2 \<le> length [0, 1, 2, 4 :: real]
   \<and> get_spline_mat_inv [0, 1, 2, 4] ''clamped''
       = Inr [[0, 0, 0, 0], [- (9 / 11), 3 / 11, 27 / 44, - (3 / 44)],
              [3 / 11, - (12 / 11), 6 / 11, 3 / 11], [0, 0, 0, 0]]
   \<and> spline_system [0, 1, 2, 4] ''clamped''
       = Inr ([[1, 0, 0, 0], [1, 4, 1, 0], [0, 1, 3, 1 / 2], [0, 0, 0, 1]],
              [[0, 0, 0, 0], [- 3, 0, 3, 0], [0, - 3, 9 / 4, 3 / 4], [0, 0, 0, 0]])
   \<and> mat_mul [[1, 0, 0, 0], [1, 4, 1, 0], [0, 1, 3, 1 / 2], [0, 0, 0, 1]]
         [[0, 0, 0, 0], [- (9 / 11), 3 / 11, 27 / 44, - (3 / 44)],
          [3 / 11, - (12 / 11), 6 / 11, 3 / 11], [0, 0, 0, 0]]
       = [[0, 0, 0, 0], [- 3, 0, 3, 0], [0, - 3, 9 / 4, 3 / 4], [0, 0, 0, 0]]
   \<and> list_all (\<lambda>r. length r = length [0, 1, 2, 4 :: real]) [[1, 2, 0, 1], [0, 1, 1, 3 :: real]]
   \<and> get_ks [[0, 0, 0, 0], [- (9 / 11), 3 / 11, 27 / 44, - (3 / 44)],
              [3 / 11, - (12 / 11), 6 / 11, 3 / 11], [0, 0, 0, 0]] [[1, 2, 0, 1], [0, 1, 1, 3]]
       = Inr [[0, - (15 / 44), - (18 / 11), 0], [0, 15 / 22, 3 / 11, 0]]"
proof -
  let ?x = "[0, 1, 2, 4] :: real list"
  let ?Z = "[[0, 0, 0, 0], [- (9 / 11), 3 / 11, 27 / 44, - (3 / 44)],
              [3 / 11, - (12 / 11), 6 / 11, 3 / 11], [0, 0, 0, 0 :: real]]"
  let ?y = "[[1, 2, 0, 1], [0, 1, 1, 3]] :: real list list"
  have h1: "strictly_increasing ?x" by (simp add: strictly_increasing_def)
  have h2: "2 \<le> length ?x" by simp
  have z: "get_spline_mat_inv ?x ''clamped'' = Inr ?Z" by code_simp
  have s: "spline_system ?x ''clamped''
       = Inr ([[1, 0, 0, 0], [1, 4, 1, 0], [0, 1, 3, 1 / 2], [0, 0, 0, 1]],
              [[0, 0, 0, 0], [- 3, 0, 3, 0], [0, - 3, 9 / 4, 3 / 4], [0, 0, 0, 0]])"
    by code_simp
  have l: "list_all (\<lambda>r. length r = length ?x) ?y" by simp
  have k: "get_ks ?Z ?y = Inr [[0, - (15 / 44), - (18 / 11), 0], [0, 15 / 22, 3 / 11, 0]]"
    by code_simp
  from C2_spline_linear_map[OF h1 h2, of "''clamped''"] z s
  have "mat_mul [[1, 0, 0, 0], [1, 4, 1, 0], [0, 1, 3, 1 / 2], [0, 0, 0, 1]] ?Z
        = [[0, 0, 0, 0], [- 3, 0, 3, 0], [0, - 3, 9 / 4, 3 / 4], [0, 0, 0, 0]]"
    by auto
  with h1 h2 z s l k show ?thesis by (intro conjI)
qed

section \<open>Properties of the facade\<close>

lemma call_eval_allinterp:
  "\<forall>q\<in>set xq. self_xmin self \<le> q \<and> q \<le> self_xmax self \<Longrightarrow>
   call_eval remap self xq y = fin_rows (interp self xq y)"
  by (simp add: call_eval_def Let_def list_all_iff)

lemma call_bound:
  assumes "base_y_is_given self" and "self_y self = Some y"
  shows "call remap self xq y_arg
         = ((if y_arg \<noteq> None then [warning_msg] else []), call_eval remap self xq y)"
  using assms by (simp add: call_def Let_def)

lemma call_unbound:
  assumes "\<not> base_y_is_given self"
  shows "call remap self xq (Some y)
         = ([], if is_periodic_required self
                then (case check_periodic_value y of
                        Inl err \<Rightarrow> Inl err
                      | Inr _ \<Rightarrow> call_eval remap self xq y)
                else call_eval remap self xq y)"
    and "call remap self xq None = ([], Inl MissingY)"
  using assms by (simp_all add: call_def Let_def split: sum.splits)

text \<open>
  Claim C1. For a constructed interpolant (boundary condition \<^verbatim>\<open>"natural"\<close> or
  \<^verbatim>\<open>"clamped"\<close>) over strictly increasing abscissas \<open>x\<close> and the ordinates \<open>y\<close> in effect
  (bound at construction, or of shape \<open>(*B, nr)\<close> and given at the call), evaluating at the
  abscissas \<open>x\<close> themselves returns \<open>y\<close>: for \<^verbatim>\<open>_interp\<close>, for the evaluation part of
  \<^verbatim>\<open>__call__\<close>, and for \<^verbatim>\<open>__call__\<close> itself whenever its periodicity check of call-time
  ordinates passes. Construction succeeds only with at least two abscissas.
\<close>

theorem C1_interpolates_knots:
  assumes c: "CubicSpline1D_init (Tensor [length x] x) y0 bc_arg extrap_arg = Inr self"
    and inc: "strictly_increasing x"
    and y: "y0 = Some y \<or> (y0 = None \<and> list_all (\<lambda>r. length r = length x) y)"
  shows "interp self x y = Inr y
       \<and> call_eval remap self x y = Inr (map (map Fin) y)
       \<and> ((y0 = None \<and> is_periodic_required self \<longrightarrow> check_periodic_value y = Inr ()) \<longrightarrow>
            snd (call remap self x (if y0 = None then Some y else y_arg)) = Inr (map (map Fin) y))"
proof -
  note sx = constructed_nr(1)[OF c] and nr = constructed_nr(2)[OF c]
  note ks = constructed_ks[OF c y]
  have i: "interp self x y = Inr y"
    using interp_knots[of self y, unfolded sx, OF inc nr ks] .
  have "\<forall>q\<in>set x. self_xmin self \<le> q \<and> q \<le> self_xmax self"
    using construct_Inr(6,7)[OF c] tmin_tmax by simp
  then have e: "call_eval remap self x y = Inr (map (map Fin) y)"
    using i by (simp add: call_eval_allinterp fin_rows_def)
  have "snd (call remap self x (if y0 = None then Some y else y_arg)) = Inr (map (map Fin) y)"
    if p: "y0 = None \<and> is_periodic_required self \<longrightarrow> check_periodic_value y = Inr ()"
  proof (cases y0)
    case None
    then have "\<not> base_y_is_given self" using construct_Inr(10)[OF c] by simp
    then show ?thesis using None p e by (simp add: call_unbound(1))
  next
    case (Some yv)
    then have b: "base_y_is_given self" "self_y self = Some y"
      using construct_Inr(10,12)[OF c] y by simp_all
    show ?thesis using Some e by (simp add: call_bound[OF b])
  qed
  then show ?thesis using i e by blast
qed

theorem C1_interpolates_knots_witness:
  "(let x = [0, 1, 2, 4]; y = [[1, 2, 0, 1], [0, 1, 1, 3]];
        self = projr (CubicSpline1D_init (Tensor [4] [0, 1, 2, 4]) None (Some ''natural'') None)
    in CubicSpline1D_init (Tensor [length x] x) None (Some ''natural'') None = Inr self
       \<and> strictly_increasing x
       \<and> list_all (\<lambda>r. length r = length x) y
       \<and> \<not> is_periodic_required self
       \<and> interp self x y = Inr y
       \<and> snd (call (\<lambda>s q lo hi. q) self x (Some y)) = Inr (map (map Fin) y))"
proof -
  let ?x = "[0, 1, 2, 4] :: real list" and ?y = "[[1, 2, 0, 1], [0, 1, 1, 3]] :: real list list"
  let ?s = "projr (CubicSpline1D_init (Tensor [4] [0, 1, 2, 4]) None (Some ''natural'') None)"
  have "\<not> isl (CubicSpline1D_init (Tensor [4] [0, 1, 2, 4]) None (Some ''natural'') None)"
    by code_simp
  then have "CubicSpline1D_init (Tensor [4] [0, 1, 2, 4]) None (Some ''natural'') None = Inr ?s"
    by simp
  moreover have len: "length ?x = 4" by simp
  ultimately have h1: "CubicSpline1D_init (Tensor [length ?x] ?x) None (Some ''natural'') None = Inr ?s"
    by (simp only:)
  have h2: "strictly_increasing ?x" by (simp add: strictly_increasing_def)
  have l: "list_all (\<lambda>r. length r = length ?x) ?y" by simp
  then have h3: "None = Some ?y \<or> ((None :: real list list option) = None \<and> list_all (\<lambda>r. length r = length ?x) ?y)"
    by simp
  have p: "\<not> is_periodic_required ?s" by code_simp
  from C1_interpolates_knots[OF h1 h2 h3, of "\<lambda>s q lo hi. q"] p h1 h2 l
  show ?thesis by (simp add: Let_def)
qed

lemma masked_select_filter: "masked_select (map Q xq) xq = filter Q xq"
  unfolding masked_select_def by (induction xq) auto

lemma count_mask: "length (filter id (map Q xq)) = length (filter Q xq)"
  by (induction xq) auto

lemma masked_put_remap:
  "masked_put (map Q xq) xq (map c (filter Q xq)) = map (\<lambda>q. if Q q then c q else q) xq"
  by (induction xq) auto

lemma masked_assign_remap:
  "masked_assign (map Q xq) (map c (filter Q xq)) xq = Inr (map (\<lambda>q. if Q q then c q else q) xq)"
  by (simp add: masked_assign_def count_mask broadcast_to_def masked_put_remap)

lemma masked_put_merge:
  "length buf = length xq \<Longrightarrow>
   masked_put (map (\<lambda>q. \<not> P q) xq) (masked_put (map P xq) buf (map g (filter P xq)))
     (map h (filter (\<lambda>q. \<not> P q) xq))
   = map (\<lambda>q. if P q then g q else h q) xq"
proof (induction xq arbitrary: buf)
  case Nil
  then show ?case by simp
next
  case (Cons q xq)
  then obtain b bs where "buf = b # bs" "length bs = length xq" by (cases buf) auto
  with Cons.IH[of bs] show ?case by simp
qed

lemma map2_nth:
  "r < length ks \<Longrightarrow> r < length y \<Longrightarrow> map2 f ks y ! r = f (ks ! r) (y ! r)"
  by simp

lemma map_map2: "map f (map2 g ks y) = map2 (\<lambda>k yr. f (g k yr)) ks y"
  by (simp add: case_prod_beta comp_def)

lemma call_eval_bound:
  assumes e: "self_extrap self = ExtrapStr ''bound''"
    and le: "self_xmin self \<le> self_xmax self"
  shows "call_eval remap self xq y
         = fin_rows (interp self
             (map (\<lambda>q. if q < self_xmin self then self_xmin self
                       else if q > self_xmax self then self_xmax self else q) xq) y)"
proof -
  let ?lo = "self_xmin self" and ?hi = "self_xmax self"
  let ?c = "\<lambda>q. if q < ?lo then ?lo else if q > ?hi then ?hi else q"
  let ?E = "\<lambda>q. \<not> (q \<ge> ?lo \<and> q \<le> ?hi)"
  show ?thesis
  proof (cases "list_all id (map (\<lambda>q. q \<ge> ?lo \<and> q \<le> ?hi) xq)")
    case True
    then have "map ?c xq = xq" by (intro map_idI) (auto simp: list_all_iff)
    then show ?thesis using True by (simp add: call_eval_def Let_def)
  next
    case False
    have m: "map Not (map (\<lambda>q. q \<ge> ?lo \<and> q \<le> ?hi) xq) = map ?E xq" by simp
    have B: "map (\<lambda>q. if ?E q then ?c q else q) xq = map ?c xq"
      using le by (intro map_cong) auto
    have G: "get_extrap_pos remap (masked_select (map ?E xq) xq) (ExtrapStr ''bound'') ?lo ?hi
          = map ?c (filter ?E xq)"
      unfolding masked_select_filter by (simp add: get_extrap_pos_def)
    have A: "masked_assign (map ?E xq) (get_extrap_pos remap (masked_select (map ?E xq) xq)
             (ExtrapStr ''bound'') ?lo ?hi) xq
          = Inr (map ?c xq)"
      unfolding G masked_assign_remap B ..
    have md: "is_mode (ExtrapStr ''bound'') ''bound''" by (simp add: is_mode_def)
    show ?thesis
      unfolding call_eval_def Let_def m e A
      using False md by (simp only: if_False if_True sum.case simp_thms)
  qed
qed

lemma call_eval_nan:
  assumes e: "self_extrap self = ExtrapStr ''nan''"
    and i: "\<And>xs. interp self xs y = Inr (map2 (\<lambda>k yr. map (v k yr) xs) ks y)"
  shows "call_eval remap self xq y
         = Inr (map2 (\<lambda>k yr. map (\<lambda>q. if q \<ge> self_xmin self \<and> q \<le> self_xmax self
                                        then Fin (v k yr q) else NaN) xq) ks y)"
proof -
  let ?P = "\<lambda>q. q \<ge> self_xmin self \<and> q \<le> self_xmax self"
  show ?thesis
  proof (cases "list_all id (map ?P xq)")
    case True
    then have "\<And>k yr. map (\<lambda>q. if ?P q then Fin (v k yr q) else NaN) xq = map Fin (map (v k yr) xq)"
      by (auto simp: list_all_iff)
    then have "map2 (\<lambda>k yr. map (\<lambda>q. if ?P q then Fin (v k yr q) else NaN) xq) ks y
               = map (map Fin) (map2 (\<lambda>k yr. map (v k yr) xq) ks y)"
      unfolding map_map2 by (simp only:)
    then show ?thesis
      unfolding call_eval_def Let_def i fin_rows_def
      using True by (simp only: if_True sum.case)
  next
    case False
    have m: "map Not (map ?P xq) = map (\<lambda>q. \<not> ?P q) xq" by simp
    have x: "get_extrap_val (masked_select (map (\<lambda>q. \<not> ?P q) xq) xq) y (ExtrapStr ''nan'')
             = Inr (map (\<lambda>_. NaN) (filter (\<lambda>q. \<not> ?P q) xq))"
      by (simp add: get_extrap_val_def masked_select_filter)
    have b: "broadcast_to (length (filter id (map (\<lambda>q. \<not> ?P q) xq)))
               (map (\<lambda>_. NaN :: fval) (filter (\<lambda>q. \<not> ?P q) xq))
             = Inr (map (\<lambda>_. NaN) (filter (\<lambda>q. \<not> ?P q) xq))"
      by (simp add: broadcast_to_def count_mask)
    have f: "fin_rows (interp self (masked_select (map ?P xq) xq) y)
             = Inr (map2 (\<lambda>k yr. map (\<lambda>q. Fin (v k yr q)) (filter ?P xq)) ks y)"
      by (auto simp: fin_rows_def i masked_select_filter map_map2 comp_def)
    have nm: "\<not> (is_mode (ExtrapStr ''nan'') ''mirror'' \<or> is_mode (ExtrapStr ''nan'') ''periodic''
                \<or> is_mode (ExtrapStr ''nan'') ''bound'')"
      by (simp add: is_mode_def)
    have H: "map (\<lambda>row. masked_put (map (\<lambda>q. \<not> ?P q) xq)
                 (masked_put (map ?P xq) (replicate (length xq) (Fin 0)) row)
                 (map (\<lambda>_. NaN) (filter (\<lambda>q. \<not> ?P q) xq)))
            (map2 (\<lambda>k yr. map (\<lambda>q. Fin (v k yr q)) (filter ?P xq)) ks y)
          = map2 (\<lambda>k yr. map (\<lambda>q. if ?P q then Fin (v k yr q) else NaN) xq) ks y"
    proof -
      have "\<And>k yr. masked_put (map (\<lambda>q. \<not> ?P q) xq)
                 (masked_put (map ?P xq) (replicate (length xq) (Fin 0))
                    (map (\<lambda>q. Fin (v k yr q)) (filter ?P xq)))
                 (map (\<lambda>_. NaN) (filter (\<lambda>q. \<not> ?P q) xq))
              = map (\<lambda>q. if ?P q then Fin (v k yr q) else NaN) xq"
        by (rule masked_put_merge) simp
      then show ?thesis unfolding map_map2 by (simp only:)
    qed
    show ?thesis
      unfolding call_eval_def Let_def m e
      by (simp only: False nm if_False f sum.case x b H)
  qed
qed

text \<open>
  Claim C5. With the extrapolation mode \<^verbatim>\<open>"bound"\<close>, for a constructed interpolant over
  strictly increasing abscissas and the ordinates \<open>y\<close> in effect, the call returns one row
  per row of \<open>y\<close> and one entry per query; at every query strictly below \<open>xmin\<close> the entry
  is \<open>y[..., 0]\<close> and at every query strictly above \<open>xmax\<close> it is \<open>y[..., -1]\<close>.
\<close>

theorem C5_bound_extrapolation:
  assumes c: "CubicSpline1D_init (Tensor [length x] x) y0 bc_arg (Some (ExtrapStr ''bound'')) = Inr self"
    and inc: "strictly_increasing x"
    and y: "y0 = Some y \<or> (y0 = None \<and> list_all (\<lambda>r. length r = length x) y)"
  shows "\<exists>rows. snd (call remap self xq (if y0 = None then Some y else y_arg)) = Inr rows
          \<and> call_eval remap self xq y = Inr rows
          \<and> length rows = length y
          \<and> (\<forall>r<length y. length (rows ! r) = length xq
                \<and> (\<forall>j<length xq.
                      (xq ! j < self_xmin self \<longrightarrow> rows ! r ! j = Fin (y ! r ! 0))
                    \<and> (xq ! j > self_xmax self \<longrightarrow> rows ! r ! j = Fin (last (y ! r)))))"
proof -
  note sx = constructed_nr(1)[OF c] and nr = constructed_nr(2)[OF c]
  note ks = constructed_ks[OF c y]
  let ?ks = "map (matvec (self_spline_mat_inv self)) y"
  let ?lo = "self_xmin self" and ?hi = "self_xmax self"
  let ?c = "\<lambda>q. if q < ?lo then ?lo else if q > ?hi then ?hi else q"
  let ?rows = "map (map Fin) (map2 (\<lambda>k yr. map (segment_value hermite_value x k yr) (map ?c xq)) ?ks y)"
  have ne: "x \<noteq> []" using nr by auto
  have e: "self_extrap self = ExtrapStr ''bound''"
    using construct_Inr(1)[OF c] by (simp add: check_and_get_extrap_def)
  have lo: "?lo = x ! 0" and hi: "?hi = x ! (length x - 1)"
    using construct_Inr(6,7)[OF c] tmin_tmax_sorted[OF inc ne] by simp_all
  have le: "?lo \<le> ?hi"
    unfolding lo hi using strictly_increasing_sorted[OF inc] nr by (intro sorted_nth_mono) auto
  have i: "interp self (map ?c xq) y
           = Inr (map2 (\<lambda>k yr. map (segment_value hermite_value x k yr) (map ?c xq)) ?ks y)"
    using interp_eq[of self y ?ks, unfolded sx, OF nr ks] .
  have ev: "call_eval remap self xq y = Inr ?rows"
    unfolding call_eval_bound[OF e le] i by (simp add: fin_rows_def)
  have np: "\<not> is_periodic_required self"
    using construct_Inr(8)[OF c] e by (simp add: is_mode_def)
  have cl: "snd (call remap self xq (if y0 = None then Some y else y_arg)) = Inr ?rows"
  proof (cases y0)
    case None
    then have "\<not> base_y_is_given self" using construct_Inr(10)[OF c] by simp
    then show ?thesis using None np ev by (simp add: call_unbound(1))
  next
    case (Some yv)
    then have b: "base_y_is_given self" "self_y self = Some y"
      using construct_Inr(10,12)[OF c] y by simp_all
    show ?thesis using Some ev by (simp add: call_bound[OF b])
  qed
  have sh: "length ?ks = length y" "\<forall>r\<in>set y. length r = length x"
    using ks(2) by (simp_all add: shapes_agree_def list_all_iff)
  have en: "length (?rows ! r) = length xq
        \<and> (\<forall>j<length xq. (xq ! j < ?lo \<longrightarrow> ?rows ! r ! j = Fin (y ! r ! 0))
                         \<and> (xq ! j > ?hi \<longrightarrow> ?rows ! r ! j = Fin (last (y ! r))))"
    if r: "r < length y" for r
  proof -
    have lr: "length (y ! r) = length x" using sh(2) r by simp
    have row: "?rows ! r = map (\<lambda>q. Fin (segment_value hermite_value x (?ks ! r) (y ! r) (?c q))) xq"
      using r by (simp add: comp_def)
    have k0: "segment_value hermite_value x (?ks ! r) (y ! r) ?lo = y ! r ! 0"
      unfolding lo using segment_value_knot[OF inc nr, of 0] ne by simp
    have kn: "segment_value hermite_value x (?ks ! r) (y ! r) ?hi = last (y ! r)"
    proof -
      have "y ! r \<noteq> []" using lr ne by auto
      then have "last (y ! r) = y ! r ! (length x - 1)" using lr by (simp add: last_conv_nth)
      then show ?thesis using segment_value_knot[OF inc nr, of "length x - 1"] ne hi by simp
    qed
    show ?thesis
      unfolding row using k0 kn le by auto
  qed
  show ?thesis
    using cl ev en by (intro exI[of _ ?rows]) simp
qed

theorem C5_bound_extrapolation_witness:
  "(let x = [0, 1, 2, 3]; y = [[1, 2, 0, 1]]; xq = [- 1, 1 / 2, 5, 3];
        self = \<lparr> base_y_is_given = False, self_extrap = ExtrapStr ''bound'', self_xmin = 0,
                 self_xmax = 3, is_periodic_required = False, self_x = [0, 1, 2, 3],
                 self_bc_type = ''natural'',
                 self_spline_mat_inv = [[- (19 / 15), 8 / 5, - (2 / 5), 1 / 15],
                                        [- (7 / 15), - (1 / 5), 4 / 5, - (2 / 15)],
                                        [2 / 15, - (4 / 5), 1 / 5, 7 / 15],
                                        [- (1 / 15), 2 / 5, - (8 / 5), 19 / 15]],
                 self_y_is_given = False, self_y = None, self_ks = None \<rparr>
    in CubicSpline1D_init (Tensor [length x] x) None (Some ''natural'') (Some (ExtrapStr ''bound''))
         = Inr self
       \<and> strictly_increasing x
       \<and> list_all (\<lambda>r. length r = length x) y
       \<and> snd (call (\<lambda>s q lo hi. q) self xq (Some y)) = Inr [[Fin 1, Fin (15 / 8), Fin 1, Fin 1]])"
proof -
  let ?x = "[0, 1, 2, 3] :: real list" and ?y = "[[1, 2, 0, 1]] :: real list list"
  let ?xq = "[- 1, 1 / 2, 5, 3] :: real list"
  let ?Z = "[[- (19 / 15), 8 / 5, - (2 / 5), 1 / 15], [- (7 / 15), - (1 / 5), 4 / 5, - (2 / 15)],
             [2 / 15, - (4 / 5), 1 / 5, 7 / 15], [- (1 / 15), 2 / 5, - (8 / 5), 19 / 15]] :: real list list"
  let ?s = "\<lparr> base_y_is_given = False, self_extrap = ExtrapStr ''bound'', self_xmin = 0,
                 self_xmax = 3, is_periodic_required = False, self_x = ?x,
                 self_bc_type = ''natural'', self_spline_mat_inv = ?Z,
                 self_y_is_given = False, self_y = None, self_ks = None \<rparr>"
  have Z: "get_spline_mat_inv ?x ''natural'' = Inr ?Z" by code_simp
  have h1: "CubicSpline1D_init (Tensor [length ?x] ?x) None (Some ''natural'')
              (Some (ExtrapStr ''bound'')) = Inr ?s"
    by (simp add: CubicSpline1D_init_def Z check_and_get_extrap_def bc_of_def is_mode_def
        tmin_def tmax_def)
  have h2: "strictly_increasing ?x" by (simp add: strictly_increasing_def)
  have l: "list_all (\<lambda>r. length r = length ?x) ?y" by simp
  then have h3: "None = Some ?y \<or> ((None :: real list list option) = None
                  \<and> list_all (\<lambda>r. length r = length ?x) ?y)"
    by simp
  have v: "snd (call (\<lambda>s q lo hi. q) ?s ?xq (Some ?y)) = Inr [[Fin 1, Fin (15 / 8), Fin 1, Fin 1]]"
    by code_simp
  from C5_bound_extrapolation[OF h1 h2 h3, of "\<lambda>s q lo hi. q" ?xq] obtain rows where
    "snd (call (\<lambda>s q lo hi. q) ?s ?xq (Some ?y)) = Inr rows" by auto
  with v h1 h2 l show ?thesis unfolding Let_def by blast
qed


text \<open>
  Claim C6. With the extrapolation mode \<^verbatim>\<open>"nan"\<close>, for a constructed interpolant and the
  ordinates \<open>y\<close> in effect, the call returns for every row and every query, at the position
  of the query, not-a-number when the query is outside \<open>[xmin, xmax]\<close> and otherwise the
  finite value of the spline at the query, which is the value \<^verbatim>\<open>_interp\<close> gives there.
\<close>

theorem C6_nan_extrapolation:
  assumes c: "CubicSpline1D_init (Tensor [length x] x) y0 bc_arg extrap_arg = Inr self"
    and e: "self_extrap self = ExtrapStr ''nan''"
    and y: "y0 = Some y \<or> (y0 = None \<and> list_all (\<lambda>r. length r = length x) y)"
  shows "call_eval remap self xq y
         = Inr (map2 (\<lambda>k yr. map (\<lambda>q. if q \<ge> self_xmin self \<and> q \<le> self_xmax self
                                        then Fin (segment_value hermite_value x k yr q) else NaN) xq)
                  (map (matvec (self_spline_mat_inv self)) y) y)
       \<and> snd (call remap self xq (if y0 = None then Some y else y_arg)) = call_eval remap self xq y
       \<and> (\<forall>xs. interp self xs y
                = Inr (map2 (\<lambda>k yr. map (segment_value hermite_value x k yr) xs)
                         (map (matvec (self_spline_mat_inv self)) y) y))"
proof -
  note sx = constructed_nr(1)[OF c] and nr = constructed_nr(2)[OF c]
  note ks = constructed_ks[OF c y]
  let ?ks = "map (matvec (self_spline_mat_inv self)) y"
  have i: "interp self xs y = Inr (map2 (\<lambda>k yr. map (segment_value hermite_value x k yr) xs) ?ks y)"
    for xs
    using interp_eq[of self y ?ks, unfolded sx, OF nr ks] .
  note ev = call_eval_nan[of self y "segment_value hermite_value x" ?ks remap xq, OF e i]
  have np: "\<not> is_periodic_required self"
    using construct_Inr(8)[OF c] e by (simp add: is_mode_def)
  have cl: "snd (call remap self xq (if y0 = None then Some y else y_arg)) = call_eval remap self xq y"
  proof (cases y0)
    case None
    then have "\<not> base_y_is_given self" using construct_Inr(10)[OF c] by simp
    then show ?thesis using None np by (simp add: call_unbound(1))
  next
    case (Some yv)
    then have b: "base_y_is_given self" "self_y self = Some y"
      using construct_Inr(10,12)[OF c] y by simp_all
    show ?thesis using Some by (simp add: call_bound[OF b])
  qed
  show ?thesis using ev cl i by blast
qed

theorem C6_nan_extrapolation_witness:
  "(let x = [0, 1, 2, 3]; y = [[1, 2, 0, 1]]; xq = [- 1, 1 / 2, 5, 3];
        self = \<lparr> base_y_is_given = False, self_extrap = ExtrapStr ''nan'', self_xmin = 0,
                 self_xmax = 3, is_periodic_required = False, self_x = [0, 1, 2, 3],
                 self_bc_type = ''natural'',
                 self_spline_mat_inv = [[- (19 / 15), 8 / 5, - (2 / 5), 1 / 15],
                                        [- (7 / 15), - (1 / 5), 4 / 5, - (2 / 15)],
                                        [2 / 15, - (4 / 5), 1 / 5, 7 / 15],
                                        [- (1 / 15), 2 / 5, - (8 / 5), 19 / 15]],
                 self_y_is_given = False, self_y = None, self_ks = None \<rparr>
    in CubicSpline1D_init (Tensor [length x] x) None (Some ''natural'') None = Inr self
       \<and> self_extrap self = ExtrapStr ''nan''
       \<and> list_all (\<lambda>r. length r = length x) y
       \<and> snd (call (\<lambda>s q lo hi. q) self xq (Some y)) = Inr [[NaN, Fin (15 / 8), NaN, Fin 1]]
       \<and> call_eval (\<lambda>s q lo hi. q) self xq y = Inr [[NaN, Fin (15 / 8), NaN, Fin 1]])"
proof -
  let ?x = "[0, 1, 2, 3] :: real list" and ?y = "[[1, 2, 0, 1]] :: real list list"
  let ?xq = "[- 1, 1 / 2, 5, 3] :: real list"
  let ?Z = "[[- (19 / 15), 8 / 5, - (2 / 5), 1 / 15], [- (7 / 15), - (1 / 5), 4 / 5, - (2 / 15)],
             [2 / 15, - (4 / 5), 1 / 5, 7 / 15], [- (1 / 15), 2 / 5, - (8 / 5), 19 / 15]] :: real list list"
  let ?s = "\<lparr> base_y_is_given = False, self_extrap = ExtrapStr ''nan'', self_xmin = 0,
                 self_xmax = 3, is_periodic_required = False, self_x = ?x,
                 self_bc_type = ''natural'', self_spline_mat_inv = ?Z,
                 self_y_is_given = False, self_y = None, self_ks = None \<rparr>"
  have Z: "get_spline_mat_inv ?x ''natural'' = Inr ?Z" by code_simp
  have h1: "CubicSpline1D_init (Tensor [length ?x] ?x) None (Some ''natural'') None = Inr ?s"
    by (simp add: CubicSpline1D_init_def Z check_and_get_extrap_def bc_of_def is_mode_def
        tmin_def tmax_def)
  have h2: "self_extrap ?s = ExtrapStr ''nan''" by simp
  have l: "list_all (\<lambda>r. length r = length ?x) ?y" by simp
  then have h3: "None = Some ?y \<or> ((None :: real list list option) = None
                  \<and> list_all (\<lambda>r. length r = length ?x) ?y)"
    by simp
  have v: "call_eval (\<lambda>s q lo hi. q) ?s ?xq ?y = Inr [[NaN, Fin (15 / 8), NaN, Fin 1]]"
    by code_simp
  from C6_nan_extrapolation[OF h1 h2 h3, of "\<lambda>s q lo hi. q" ?xq]
  have "snd (call (\<lambda>s q lo hi. q) ?s ?xq (Some ?y)) = call_eval (\<lambda>s q lo hi. q) ?s ?xq ?y"
    by simp
  with v h1 h2 l show ?thesis unfolding Let_def by (simp only: simp_thms)
qed

lemma broadcast_to_err: "broadcast_to n vs = Inl e \<Longrightarrow> e = SizeMismatch"
  by (auto simp: broadcast_to_def split: if_splits)

lemma masked_assign_err: "masked_assign m vs b = Inl e \<Longrightarrow> e = SizeMismatch"
  by (auto simp: masked_assign_def split: sum.splits dest: broadcast_to_err)

lemma gather_err: "gather v idx = Inl e \<Longrightarrow> e = IndexError"
  by (auto simp: gather_def split: if_splits)

lemma get_ks_err: "get_ks Z y = Inl e \<Longrightarrow> e = SizeMismatch"
  by (auto simp: get_ks_def split: if_splits)

lemma current_ks_err: "current_ks self y = Inl e \<Longrightarrow> e = SizeMismatch \<or> e = AttributeError"
  by (auto simp: current_ks_def split: if_splits option.splits dest: get_ks_err)

lemma interp_poly_err: "interp_poly x ks y xq idxl = Inl e \<Longrightarrow> e = SizeMismatch \<or> e = IndexError"
  by (auto simp: interp_poly_def Let_def split: if_splits sum.splits dest: gather_err)

lemma interp_hermite_err:
  "interp_hermite x ks y xq idxl idxr = Inl e \<Longrightarrow> e = SizeMismatch \<or> e = IndexError"
  by (auto simp: interp_hermite_def Let_def split: if_splits sum.splits dest: gather_err)

lemma interp_err:
  "interp self xq y = Inl e \<Longrightarrow> e = SizeMismatch \<or> e = IndexError \<or> e = AttributeError"
  by (auto simp: interp_def Let_def split: if_splits sum.splits
      dest: current_ks_err interp_poly_err interp_hermite_err)

lemma fin_rows_err: "fin_rows r = Inl e \<Longrightarrow> r = Inl e"
  by (auto simp: fin_rows_def split: sum.splits)

lemma get_extrap_val_err: "get_extrap_val xqe y ex = Inl e \<Longrightarrow> \<exists>s. e = ExtrapError s"
  by (auto simp: get_extrap_val_def split: extrap.splits if_splits)

lemma call_eval_not_periodic: "call_eval remap self xq y \<noteq> Inl NotPeriodic"
proof
  assume a: "call_eval remap self xq y = Inl NotPeriodic"
  have i: "\<And>xs. fin_rows (interp self xs y) \<noteq> Inl NotPeriodic"
    using fin_rows_err interp_err by fastforce
  have m: "\<And>m vs b. masked_assign m vs b \<noteq> Inl NotPeriodic"
    using masked_assign_err by fastforce
  have g: "\<And>xqe ex. get_extrap_val xqe y ex \<noteq> Inl NotPeriodic"
    using get_extrap_val_err by fastforce
  have b: "\<And>n (vs :: fval list). broadcast_to n vs \<noteq> Inl NotPeriodic"
    using broadcast_to_err by fastforce
  from a i m g b show False
    unfolding call_eval_def Let_def
    by (auto split: if_splits sum.splits)
qed

lemma check_periodic_value_NotPeriodic:
  "check_periodic_value y = Inl NotPeriodic
   \<longleftrightarrow> list_all (\<lambda>r. r \<noteq> []) y \<and> \<not> allclose (map hd y) (map last y)"
  by (simp add: check_periodic_value_def)

lemma allclose_rows:
  "allclose (map hd y) (map last y)
   \<longleftrightarrow> list_all (\<lambda>r. \<bar>hd r - last r\<bar> \<le> 1 / 10 ^ 8 + 1 / 10 ^ 5 * \<bar>last r\<bar>) y"
  unfolding allclose_def by (induction y) auto

lemma init_NotPeriodic:
  assumes c: "CubicSpline1D_init xt None bc_arg extrap_arg = Inr s0"
  shows "CubicSpline1D_init xt (Some y) bc_arg extrap_arg = Inl NotPeriodic
         \<longleftrightarrow> is_periodic_required s0 \<and> check_periodic_value y = Inl NotPeriodic"
proof -
  note f = construct_Inr[OF c]
  have k: "get_ks (self_spline_mat_inv s0) y \<noteq> Inl NotPeriodic"
    using get_ks_err by fastforce
  have b: "bc_of bc_arg \<in> set [''natural'', ''clamped'']" using f(4) by auto
  have s: "\<not> (shape xt \<noteq> [] \<and> last (shape xt) = 0)" using f(3) by simp
  show ?thesis
    using k
    by (cases "check_periodic_value y"; cases "get_ks (self_spline_mat_inv s0) y")
       (simp_all add: CubicSpline1D_init_def Let_def f(1) f(2) f(9) f(8)[symmetric] b s
          del: set_simps)
qed


text \<open>
  Claim C7, as the code has it. The endpoints are compared with \<^verbatim>\<open>torch.allclose\<close>, not
  for equality: endpoints that differ by \<open>1e-9\<close> pass the check, and construction with
  such ordinates in the mode \<^verbatim>\<open>"periodic"\<close> succeeds.
\<close>

theorem C7_periodic_check_counterexample:
  "hd [1, 2, 0, 1 + 1 / 10 ^ 9 :: real] \<noteq> last [1, 2, 0, 1 + 1 / 10 ^ 9 :: real]
   \<and> check_periodic_value [[1, 2, 0, 1 + 1 / 10 ^ 9]] = Inr ()
   \<and> \<not> isl (CubicSpline1D_init (Tensor [4] [0, 1, 2, 3]) (Some [[1, 2, 0, 1 + 1 / 10 ^ 9]])
               (Some ''natural'') (Some (ExtrapStr ''periodic'')))"
proof -
  have a: "hd [1, 2, 0, 1 + 1 / 10 ^ 9 :: real] \<noteq> last [1, 2, 0, 1 + 1 / 10 ^ 9 :: real]"
    by simp
  have b: "check_periodic_value [[1, 2, 0, 1 + 1 / 10 ^ 9]] = Inr ()"
    by (simp add: check_periodic_value_def allclose_def)
  have c: "\<not> isl (CubicSpline1D_init (Tensor [4] [0, 1, 2, 3]) (Some [[1, 2, 0, 1 + 1 / 10 ^ 9]])
               (Some ''natural'') (Some (ExtrapStr ''periodic'')))"
    by code_simp
  from a b c show ?thesis by (intro conjI)
qed

text \<open>
  Claim C7, amended. The periodicity requirement is in force exactly when the
  extrapolation mode is \<^verbatim>\<open>"periodic"\<close>. Where construction without ordinates succeeds
  (all earlier checks pass): construction with ordinates \<open>y\<close> fails with the periodicity
  error exactly when the requirement is in force and, in some row of \<open>y\<close>,
  \<open>\<bar>y[..., 0] - y[..., -1]\<bar> > 1e-8 + 1e-5 * \<bar>y[..., -1]\<bar>\<close>; an interpolant constructed with
  ordinates never fails with that error at a call; and a call of the interpolant
  constructed without ordinates fails with it exactly under the same condition on the
  ordinates of the call. In particular equal endpoints never fail on this account.
\<close>

theorem C7_periodic_check:
  assumes c: "CubicSpline1D_init xt None bc_arg extrap_arg = Inr s0"
  shows "is_periodic_required s0 = is_mode (self_extrap s0) ''periodic''
       \<and> (CubicSpline1D_init xt (Some y) bc_arg extrap_arg = Inl NotPeriodic
            \<longleftrightarrow> is_periodic_required s0 \<and> list_all (\<lambda>r. r \<noteq> []) y
                \<and> \<not> list_all (\<lambda>r. \<bar>hd r - last r\<bar> \<le> 1 / 10 ^ 8 + 1 / 10 ^ 5 * \<bar>last r\<bar>) y)
       \<and> (\<forall>self y'. CubicSpline1D_init xt (Some y) bc_arg extrap_arg = Inr self
              \<longrightarrow> snd (call remap self xq y') \<noteq> Inl NotPeriodic)
       \<and> (snd (call remap s0 xq (Some y)) = Inl NotPeriodic
            \<longleftrightarrow> is_periodic_required s0 \<and> list_all (\<lambda>r. r \<noteq> []) y
                \<and> \<not> list_all (\<lambda>r. \<bar>hd r - last r\<bar> \<le> 1 / 10 ^ 8 + 1 / 10 ^ 5 * \<bar>last r\<bar>) y)"
proof (intro conjI allI impI)
  show "is_periodic_required s0 = is_mode (self_extrap s0) ''periodic''"
    by (rule construct_Inr(8)[OF c])
  show "CubicSpline1D_init xt (Some y) bc_arg extrap_arg = Inl NotPeriodic
        \<longleftrightarrow> is_periodic_required s0 \<and> list_all (\<lambda>r. r \<noteq> []) y
            \<and> \<not> list_all (\<lambda>r. \<bar>hd r - last r\<bar> \<le> 1 / 10 ^ 8 + 1 / 10 ^ 5 * \<bar>last r\<bar>) y"
    unfolding init_NotPeriodic[OF c] check_periodic_value_NotPeriodic allclose_rows ..
  show "snd (call remap self xq y') \<noteq> Inl NotPeriodic"
    if s: "CubicSpline1D_init xt (Some y) bc_arg extrap_arg = Inr self" for self y'
  proof -
    have "base_y_is_given self" "self_y self = Some y"
      using construct_Inr(10,12)[OF s] by simp_all
    then show ?thesis by (simp add: call_bound call_eval_not_periodic)
  qed
  have u: "\<not> base_y_is_given s0" using construct_Inr(10)[OF c] by simp
  have "snd (call remap s0 xq (Some y)) = Inl NotPeriodic
        \<longleftrightarrow> is_periodic_required s0 \<and> check_periodic_value y = Inl NotPeriodic"
    using call_eval_not_periodic[of remap s0 xq y]
    by (cases "check_periodic_value y") (simp_all add: call_unbound(1)[OF u])
  then show "snd (call remap s0 xq (Some y)) = Inl NotPeriodic
        \<longleftrightarrow> is_periodic_required s0 \<and> list_all (\<lambda>r. r \<noteq> []) y
            \<and> \<not> list_all (\<lambda>r. \<bar>hd r - last r\<bar> \<le> 1 / 10 ^ 8 + 1 / 10 ^ 5 * \<bar>last r\<bar>) y"
    unfolding check_periodic_value_NotPeriodic allclose_rows .
qed

theorem C7_periodic_check_witness:
  "(let x = [0, 1, 2, 3];
        s0 = \<lparr> base_y_is_given = False, self_extrap = ExtrapStr ''periodic'', self_xmin = 0,
               self_xmax = 3, is_periodic_required = True, self_x = [0, 1, 2, 3],
               self_bc_type = ''natural'',
               self_spline_mat_inv = [[- (19 / 15), 8 / 5, - (2 / 5), 1 / 15],
                                      [- (7 / 15), - (1 / 5), 4 / 5, - (2 / 15)],
                                      [2 / 15, - (4 / 5), 1 / 5, 7 / 15],
                                      [- (1 / 15), 2 / 5, - (8 / 5), 19 / 15]],
               self_y_is_given = False, self_y = None, self_ks = None \<rparr>
    in CubicSpline1D_init (Tensor [4] x) None (Some ''natural'') (Some (ExtrapStr ''periodic''))
         = Inr s0
       \<and> CubicSpline1D_init (Tensor [4] x) (Some [[1, 2, 0, 3]]) (Some ''natural'')
           (Some (ExtrapStr ''periodic'')) = Inl NotPeriodic
       \<and> snd (call (\<lambda>s q lo hi. q) s0 [1 / 2, 3] (Some [[1, 2, 0, 3]])) = Inl NotPeriodic
       \<and> snd (call (\<lambda>s q lo hi. q) s0 [1 / 2, 3] (Some [[1, 2, 0, 1]])) \<noteq> Inl NotPeriodic)"
proof -
  let ?x = "[0, 1, 2, 3] :: real list"
  let ?Z = "[[- (19 / 15), 8 / 5, - (2 / 5), 1 / 15], [- (7 / 15), - (1 / 5), 4 / 5, - (2 / 15)],
             [2 / 15, - (4 / 5), 1 / 5, 7 / 15], [- (1 / 15), 2 / 5, - (8 / 5), 19 / 15]] :: real list list"
  let ?s = "\<lparr> base_y_is_given = False, self_extrap = ExtrapStr ''periodic'', self_xmin = 0,
               self_xmax = 3, is_periodic_required = True, self_x = ?x,
               self_bc_type = ''natural'', self_spline_mat_inv = ?Z,
               self_y_is_given = False, self_y = None, self_ks = None \<rparr>"
  have Z: "get_spline_mat_inv ?x ''natural'' = Inr ?Z" by code_simp
  have h1: "CubicSpline1D_init (Tensor [4] ?x) None (Some ''natural'') (Some (ExtrapStr ''periodic''))
            = Inr ?s"
    by (simp add: CubicSpline1D_init_def Z check_and_get_extrap_def bc_of_def is_mode_def
        tmin_def tmax_def)
  have p: "is_periodic_required ?s" by simp
  have a: "list_all (\<lambda>r. r \<noteq> []) [[1, 2, 0, 3 :: real]]
           \<and> \<not> list_all (\<lambda>r. \<bar>hd r - last r\<bar> \<le> 1 / 10 ^ 8 + 1 / 10 ^ 5 * \<bar>last r\<bar>) [[1, 2, 0, 3 :: real]]"
    by simp
  have b: "list_all (\<lambda>r. \<bar>hd r - last r\<bar> \<le> 1 / 10 ^ 8 + 1 / 10 ^ 5 * \<bar>last r\<bar>) [[1, 2, 0, 1 :: real]]"
    by simp
  note T1 = C7_periodic_check[OF h1, of "[[1, 2, 0, 3]]" "\<lambda>s q lo hi. q" "[1 / 2, 3]"]
  note T2 = C7_periodic_check[OF h1, of "[[1, 2, 0, 1]]" "\<lambda>s q lo hi. q" "[1 / 2, 3]"]
  have c1: "CubicSpline1D_init (Tensor [4] ?x) (Some [[1, 2, 0, 3]]) (Some ''natural'')
           (Some (ExtrapStr ''periodic'')) = Inl NotPeriodic"
    using T1 p a by blast
  have c2: "snd (call (\<lambda>s q lo hi. q) ?s [1 / 2, 3] (Some [[1, 2, 0, 3]])) = Inl NotPeriodic"
    using T1 p a by blast
  have c3: "snd (call (\<lambda>s q lo hi. q) ?s [1 / 2, 3] (Some [[1, 2, 0, 1]])) \<noteq> Inl NotPeriodic"
    using T2 b by blast
  from h1 c1 c2 c3 show ?thesis unfolding Let_def by (intro conjI)
qed

text \<open>
  Claim C8. An interpolant constructed with ordinates \<open>y\<close>, called with ordinates \<open>y'\<close>:
  the call issues the warning and returns what the evaluation on the construction-time
  \<open>y\<close> returns, which is the result of the same call without \<open>y'\<close> (that call issues no
  warning). The slope coefficients used are the cached ones, whatever \<open>y'\<close> is, and for
  queries inside the domain the result is produced from them and \<open>y\<close>.
\<close>

theorem C8_call_time_y_ignored:
  assumes c: "CubicSpline1D_init (Tensor [length x] x) (Some y) bc_arg extrap_arg = Inr self"
  shows "call remap self xq (Some y') = ([warning_msg], call_eval remap self xq y)
       \<and> call remap self xq None = ([], call_eval remap self xq y)
       \<and> snd (call remap self xq (Some y')) = snd (call remap self xq None)
       \<and> (\<exists>ks. self_ks self = Some ks \<and> current_ks self y' = Inr ks
              \<and> ((\<forall>q\<in>set xq. self_xmin self \<le> q \<and> q \<le> self_xmax self) \<longrightarrow>
                    snd (call remap self xq (Some y'))
                    = Inr (map (map Fin)
                        (map2 (\<lambda>k yr. map (segment_value hermite_value x k yr) xq) ks y))))"
proof -
  have b: "base_y_is_given self" "self_y self = Some y"
    using construct_Inr(10,12)[OF c] by simp_all
  note sx = constructed_nr(1)[OF c] and nr = constructed_nr(2)[OF c]
  let ?ks = "map (matvec (self_spline_mat_inv self)) y"
  have yg: "self_y_is_given self" using construct_Inr(11)[OF c] by simp
  have ck: "current_ks self y = Inr ?ks" and sh: "shapes_agree (length x) ?ks y"
    using constructed_ks[OF c, of y] by simp_all
  have sk: "self_ks self = Some ?ks"
    using ck yg by (simp add: current_ks_def split: option.splits)
  then have ck': "current_ks self y' = Inr ?ks" using yg by (simp add: current_ks_def)
  have i: "interp self xq y
           = Inr (map2 (\<lambda>k yr. map (segment_value hermite_value x k yr) xq) ?ks y)"
    using interp_eq[of self y ?ks, unfolded sx, OF nr ck sh] .
  have "snd (call remap self xq (Some y'))
        = Inr (map (map Fin) (map2 (\<lambda>k yr. map (segment_value hermite_value x k yr) xq) ?ks y))"
    if "\<forall>q\<in>set xq. self_xmin self \<le> q \<and> q \<le> self_xmax self"
    using that by (simp add: call_bound[OF b] call_eval_allinterp i fin_rows_def)
  then show ?thesis using sk ck' by (simp add: call_bound[OF b])
qed

theorem C8_call_time_y_ignored_witness:
  "(let x = [0, 1, 2, 3]; y = [[1, 2, 0, 1]];
        self = \<lparr> base_y_is_given = True, self_extrap = ExtrapStr ''nan'', self_xmin = 0,
                 self_xmax = 3, is_periodic_required = False, self_x = [0, 1, 2, 3],
                 self_bc_type = ''natural'',
                 self_spline_mat_inv = [[- (19 / 15), 8 / 5, - (2 / 5), 1 / 15],
                                        [- (7 / 15), - (1 / 5), 4 / 5, - (2 / 15)],
                                        [2 / 15, - (4 / 5), 1 / 5, 7 / 15],
                                        [- (1 / 15), 2 / 5, - (8 / 5), 19 / 15]],
                 self_y_is_given = True, self_y = Some [[1, 2, 0, 1]],
                 self_ks = Some [[2, - 1, - 1, 2]] \<rparr>
    in CubicSpline1D_init (Tensor [length x] x) (Some y) (Some ''natural'') None = Inr self
       \<and> call (\<lambda>s q lo hi. q) self [1 / 2, 3, 7] (Some [[5, 5, 5, 5]])
           = ([warning_msg], Inr [[Fin (15 / 8), Fin 1, NaN]])
       \<and> call (\<lambda>s q lo hi. q) self [1 / 2, 3, 7] None = ([], Inr [[Fin (15 / 8), Fin 1, NaN]]))"
proof -
  let ?x = "[0, 1, 2, 3] :: real list" and ?y = "[[1, 2, 0, 1]] :: real list list"
  let ?Z = "[[- (19 / 15), 8 / 5, - (2 / 5), 1 / 15], [- (7 / 15), - (1 / 5), 4 / 5, - (2 / 15)],
             [2 / 15, - (4 / 5), 1 / 5, 7 / 15], [- (1 / 15), 2 / 5, - (8 / 5), 19 / 15]] :: real list list"
  let ?s = "\<lparr> base_y_is_given = True, self_extrap = ExtrapStr ''nan'', self_xmin = 0,
                 self_xmax = 3, is_periodic_required = False, self_x = ?x,
                 self_bc_type = ''natural'', self_spline_mat_inv = ?Z,
                 self_y_is_given = True, self_y = Some ?y, self_ks = Some [[2, - 1, - 1, 2]] \<rparr>"
  have Z: "get_spline_mat_inv ?x ''natural'' = Inr ?Z" by code_simp
  have K: "get_ks ?Z ?y = Inr [[2, - 1, - 1, 2]]" by code_simp
  have h1: "CubicSpline1D_init (Tensor [length ?x] ?x) (Some ?y) (Some ''natural'') None = Inr ?s"
    by (simp add: CubicSpline1D_init_def Z K check_and_get_extrap_def bc_of_def is_mode_def
        tmin_def tmax_def)
  have v: "call_eval (\<lambda>s q lo hi. q) ?s [1 / 2, 3, 7] ?y = Inr [[Fin (15 / 8), Fin 1, NaN]]"
    by code_simp
  from C8_call_time_y_ignored[OF h1, of "\<lambda>s q lo hi. q" "[1 / 2, 3, 7]" "[[5, 5, 5, 5]]"]
  have "call (\<lambda>s q lo hi. q) ?s [1 / 2, 3, 7] (Some [[5, 5, 5, 5]])
          = ([warning_msg], call_eval (\<lambda>s q lo hi. q) ?s [1 / 2, 3, 7] ?y)"
    and "call (\<lambda>s q lo hi. q) ?s [1 / 2, 3, 7] None
          = ([], call_eval (\<lambda>s q lo hi. q) ?s [1 / 2, 3, 7] ?y)"
    by blast+
  with v h1 show ?thesis unfolding Let_def by (simp only: simp_thms)
qed

text \<open>
  Claim C9, at the boundary condition \<^verbatim>\<open>"periodic"\<close>: with no extrapolation mode given,
  construction raises the \<^verbatim>\<open>KeyError\<close> of the dictionary lookup in
  \<^verbatim>\<open>check_and_get_extrap\<close>, which runs before the check of the boundary condition; with
  a mode given it raises the error of an unimplemented boundary condition.
\<close>

theorem C9_unknown_bc_type:
  "CubicSpline1D_init (Tensor [4] [0, 1, 2, 3]) None (Some ''periodic'') None
     = Inl (KeyError ''periodic'')
   \<and> CubicSpline1D_init (Tensor [4] [0, 1, 2, 3]) None (Some ''periodic'') (Some (ExtrapStr ''nan''))
     = Inl (UnimplementedBc ''periodic'')"
  by (simp add: CubicSpline1D_init_def check_and_get_extrap_def bc_of_def)

end
